theory Spec2Isabelle
  imports Main "HOL-Library.Word"
begin

section \<open>The LVX decoder of \<open>Scripts/lvx_to_las.py\<close>\<close>

text \<open>
  The capture file is a Python \<open>bytes\<close> object: a list of bytes, each read as an
  integer in \<open>0..255\<close>. Offsets are Python integers that start at 0 and only ever
  grow, so they are natural numbers. Decoded coordinates are unbounded Python integers.
  The six IMU floats are never computed with; each is named by the 32-bit pattern of
  the value that \<open>struct.unpack('<6f', ...)\<close> returns.
\<close>

type_synonym byte = "8 word"
type_synonym float32 = "32 word"

text \<open>A point is the tuple \<open>(x, y, z, intensity, return_number)\<close>.\<close>

type_synonym point = "int \<times> int \<times> int \<times> int \<times> int"

text \<open>An IMU record is \<open>(timestamp, gyro_x, gyro_y, gyro_z, acc_x, acc_y, acc_z)\<close>.\<close>

type_synonym imu_record =
  "int \<times> float32 \<times> float32 \<times> float32 \<times> float32 \<times> float32 \<times> float32"

text \<open>
  The two exceptions the decoder can raise: \<open>IndexError\<close> from \<open>data[i]\<close> with
  \<open>i\<close> out of range, \<open>struct.error\<close> from \<open>struct.unpack\<close> on a slice of the
  wrong length.
\<close>

datatype py_error = IndexError | StructError

definition bind_err :: "py_error + 'a \<Rightarrow> ('a \<Rightarrow> py_error + 'b) \<Rightarrow> py_error + 'b" where
  "bind_err m f = (case m of Inl e \<Rightarrow> Inl e | Inr v \<Rightarrow> f v)"

subsection \<open>Reading bytes\<close>

text \<open>\<open>data[i]\<close>: raises \<open>IndexError\<close> out of range.\<close>

definition get_byte :: "byte list \<Rightarrow> nat \<Rightarrow> py_error + int" where
  "get_byte data i = (if i < length data then Inr (uint (data ! i)) else Inl IndexError)"

text \<open>\<open>data[a:b]\<close>: never raises, the slice is cut at the end of the buffer.\<close>

definition slice :: "byte list \<Rightarrow> nat \<Rightarrow> nat \<Rightarrow> byte list" where
  "slice data a b = take (b - a) (drop a data)"

text \<open>The unsigned little-endian value of a byte string.\<close>

fun from_bytes_le :: "byte list \<Rightarrow> int" where
  "from_bytes_le [] = 0"
| "from_bytes_le (b # bs) = uint b + 256 * from_bytes_le bs"

text \<open>
  \<open>int.from_bytes(bs, 'little', signed=True)\<close>: two's complement over however many
  bytes the slice holds; the empty slice gives 0 and nothing raises.
\<close>

definition from_bytes_signed :: "byte list \<Rightarrow> int" where
  "from_bytes_signed bs =
     (let u = from_bytes_le bs in
      if bs \<noteq> [] \<and> 2 ^ (8 * length bs - 1) \<le> u then u - 2 ^ (8 * length bs) else u)"

text \<open>
  \<open>struct.unpack('<I', bs)[0]\<close> and \<open>struct.unpack('<Q', bs)[0]\<close>: the slice must
  have exactly \<open>n\<close> bytes (4 or 8).
\<close>

definition unpack_uint :: "nat \<Rightarrow> byte list \<Rightarrow> py_error + int" where
  "unpack_uint n bs = (if length bs = n then Inr (from_bytes_le bs) else Inl StructError)"

text \<open>
  One little-endian float of \<open>struct.unpack('<6f', bs)\<close>, named by its 32-bit pattern.
  The Python float that \<open>struct.unpack\<close> returns determines the four bytes it was read
  from, except for a signalling NaN (exponent bits all 1, mantissa not 0, bit 22 clear),
  which comes out as the quiet NaN with the same payload: bit 22 is set.
\<close>

definition float_bits :: "byte list \<Rightarrow> float32" where
  "float_bits bs =
     (let w = word_of_int (from_bytes_le bs) :: float32 in
      if take_bit 8 (drop_bit 23 w) = 255 \<and> take_bit 23 w \<noteq> 0 then set_bit 22 w else w)"

definition unpack_6f :: "byte list \<Rightarrow> py_error + float32 list" where
  "unpack_6f bs =
     (if length bs = 24 then Inr (map (\<lambda>k. float_bits (slice bs (4 * k) (4 * k + 4))) [0..<6])
      else Inl StructError)"

subsection \<open>\<open>process_package\<close>\<close>

text \<open>
  The fourteen bytes of one return, as every branch of \<open>process_package\<close> reads them:
  \<open>x\<close>, \<open>y\<close>, \<open>z\<close> with \<open>int.from_bytes\<close> on slices, then the reflectivity byte at
  \<open>offset+12\<close> and the tag byte at \<open>offset+13\<close> by index.
\<close>

definition read_return :: "byte list \<Rightarrow> nat \<Rightarrow> py_error + (int \<times> int \<times> int \<times> int \<times> int)" where
  "read_return data offset =
     (let x = from_bytes_signed (slice data offset (offset + 4));
          y = from_bytes_signed (slice data (offset + 4) (offset + 8));
          z = from_bytes_signed (slice data (offset + 8) (offset + 12))
      in bind_err (get_byte data (offset + 12)) (\<lambda>reflectivity.
         bind_err (get_byte data (offset + 13)) (\<lambda>tag.
         Inr (x, y, z, reflectivity, tag))))"

text \<open>
  \<open>if not (x == 0 and y == 0 and z == 0 and reflectivity == 0):
  points.append((x, y, z, reflectivity, rn))\<close>
\<close>

definition append_return :: "point list \<Rightarrow> (int \<times> int \<times> int \<times> int \<times> int) \<Rightarrow> int \<Rightarrow> point list" where
  "append_return points r rn =
     (case r of (x, y, z, reflectivity, tag) \<Rightarrow>
        if \<not> (x = 0 \<and> y = 0 \<and> z = 0 \<and> reflectivity = 0)
        then points @ [(x, y, z, reflectivity, rn)] else points)"

text \<open>
  The three \<open>for i in range(n)\<close> loops; the first argument counts the iterations left.
  Data type 2 (\<open>range(96)\<close>, 14 bytes per entry):
\<close>

fun single_loop :: "nat \<Rightarrow> byte list \<Rightarrow> nat \<Rightarrow> point list \<Rightarrow> py_error + (point list \<times> nat)" where
  "single_loop 0 data offset points = Inr (points, offset)"
| "single_loop (Suc n) data offset points =
     bind_err (read_return data offset) (\<lambda>r1.
     single_loop n data (offset + 14) (append_return points r1 1))"

text \<open>Data type 4 (\<open>range(48)\<close>, 28 bytes per entry: both returns are read, then appended):\<close>

fun double_loop :: "nat \<Rightarrow> byte list \<Rightarrow> nat \<Rightarrow> point list \<Rightarrow> py_error + (point list \<times> nat)" where
  "double_loop 0 data offset points = Inr (points, offset)"
| "double_loop (Suc n) data offset points =
     bind_err (read_return data offset) (\<lambda>r1.
     bind_err (read_return data (offset + 14)) (\<lambda>r2.
     double_loop n data (offset + 28)
       (append_return (append_return points r1 1) r2 2)))"

text \<open>Data type 7 (\<open>range(30)\<close>, 42 bytes per entry):\<close>

fun triple_loop :: "nat \<Rightarrow> byte list \<Rightarrow> nat \<Rightarrow> point list \<Rightarrow> py_error + (point list \<times> nat)" where
  "triple_loop 0 data offset points = Inr (points, offset)"
| "triple_loop (Suc n) data offset points =
     bind_err (read_return data offset) (\<lambda>r1.
     bind_err (read_return data (offset + 14)) (\<lambda>r2.
     bind_err (read_return data (offset + 28)) (\<lambda>r3.
     triple_loop n data (offset + 42)
       (append_return (append_return (append_return points r1 1) r2 2) r3 3))))"

text \<open>
  The package header, read field by field: five bytes by index, the status code with
  \<open>struct.unpack('<I')\<close>, two bytes by index, the timestamp with \<open>struct.unpack('<Q')\<close>;
  19 bytes in all. It returns \<open>(data_type, timestamp, offset)\<close>, the fields the rest of
  the function uses.
\<close>

definition package_header :: "byte list \<Rightarrow> nat \<Rightarrow> py_error + (int \<times> int \<times> nat)" where
  "package_header data offset =
     bind_err (get_byte data offset) (\<lambda>device_index.
     bind_err (get_byte data (offset + 1)) (\<lambda>version.
     bind_err (get_byte data (offset + 2)) (\<lambda>slot_id.
     bind_err (get_byte data (offset + 3)) (\<lambda>lidar_id.
     bind_err (get_byte data (offset + 4)) (\<lambda>reserved.
     bind_err (unpack_uint 4 (slice data (offset + 5) (offset + 9))) (\<lambda>status_code.
     bind_err (get_byte data (offset + 9)) (\<lambda>timestamp_type.
     bind_err (get_byte data (offset + 10)) (\<lambda>data_type.
     bind_err (unpack_uint 8 (slice data (offset + 11) (offset + 19))) (\<lambda>timestamp.
     Inr (data_type, timestamp, offset + 19))))))))))"

definition process_package ::
  "byte list \<Rightarrow> nat \<Rightarrow> py_error + (point list \<times> imu_record option \<times> nat)" where
  "process_package data offset =
     bind_err (package_header data offset) (\<lambda>(data_type, timestamp, offset).
       if data_type = 2 then
         bind_err (single_loop 96 data offset []) (\<lambda>(points, offset). Inr (points, None, offset))
       else if data_type = 4 then
         bind_err (double_loop 48 data offset []) (\<lambda>(points, offset). Inr (points, None, offset))
       else if data_type = 7 then
         bind_err (triple_loop 30 data offset []) (\<lambda>(points, offset). Inr (points, None, offset))
       else if data_type = 6 then
         bind_err (unpack_6f (slice data offset (offset + 24))) (\<lambda>imu.
           Inr ([], Some (timestamp, imu ! 0, imu ! 1, imu ! 2, imu ! 3, imu ! 4, imu ! 5),
                offset + 24))
       else Inr ([], None, offset + 24))"

subsection \<open>What \<open>process_package\<close> computes\<close>

text \<open>
  The result of \<open>process_package\<close> in closed form, for the proofs. \<open>return_at\<close> is
  what \<open>read_return\<close> reads where the fourteen bytes are in the buffer;
  \<open>is_sentinel\<close> is the condition under which a return is not appended;
  \<open>sub_point\<close> is the \<open>k\<close>-th return (counting from 0) of the entry at \<open>offset\<close>,
  with return number \<open>k + 1\<close>; \<open>positional_points\<close> lists the returns of \<open>n\<close>
  entries of \<open>m\<close> returns each, in order, and \<open>kept_points\<close> drops the sentinels
  from that list.
\<close>

definition return_at :: "byte list \<Rightarrow> nat \<Rightarrow> int \<times> int \<times> int \<times> int \<times> int" where
  "return_at data offset =
     (from_bytes_signed (slice data offset (offset + 4)),
      from_bytes_signed (slice data (offset + 4) (offset + 8)),
      from_bytes_signed (slice data (offset + 8) (offset + 12)),
      uint (data ! (offset + 12)), uint (data ! (offset + 13)))"

definition is_sentinel :: "point \<Rightarrow> bool" where
  "is_sentinel p = (case p of (x, y, z, intensity, rn) \<Rightarrow> x = 0 \<and> y = 0 \<and> z = 0 \<and> intensity = 0)"

definition sub_point :: "byte list \<Rightarrow> nat \<Rightarrow> nat \<Rightarrow> point" where
  "sub_point data offset k =
     (case return_at data (offset + 14 * k) of (x, y, z, reflectivity, tag) \<Rightarrow>
        (x, y, z, reflectivity, int k + 1))"

definition positional_points :: "byte list \<Rightarrow> nat \<Rightarrow> nat \<Rightarrow> nat \<Rightarrow> point list" where
  "positional_points data offset m n =
     concat (map (\<lambda>i. map (sub_point data (offset + 14 * m * i)) [0..<m]) [0..<n])"

definition kept_points :: "byte list \<Rightarrow> nat \<Rightarrow> nat \<Rightarrow> nat \<Rightarrow> point list" where
  "kept_points data offset m n = filter (\<lambda>p. \<not> is_sentinel p) (positional_points data offset m n)"

lemma bind_err_simps [simp]:
  "bind_err (Inl e) f = Inl e" "bind_err (Inr v) f = f v"
  by (simp_all add: bind_err_def)

lemma read_return_eq:
  "read_return data offset =
     (if offset + 13 < length data then Inr (return_at data offset) else Inl IndexError)"
  by (simp add: read_return_def get_byte_def return_at_def Let_def)

lemma append_return_eq:
  "append_return points (return_at data (offset + 14 * k)) (int k + 1) =
     points @ filter (\<lambda>p. \<not> is_sentinel p) [sub_point data offset k]"
  by (simp add: append_return_def sub_point_def is_sentinel_def split: prod.splits)

lemma positional_points_0 [simp]: "positional_points data offset m 0 = []"
  by (simp add: positional_points_def)

lemma positional_points_Suc:
  "positional_points data offset m (Suc n) =
     map (sub_point data offset) [0..<m] @ positional_points data (offset + 14 * m) m n"
proof -
  have "[0..<Suc n] = 0 # map Suc [0..<n]"
    by (simp add: upt_conv_Cons map_Suc_upt del: upt_Suc)
  then show ?thesis
    by (simp add: positional_points_def comp_def algebra_simps del: upt_Suc)
qed

lemma kept_points_Suc:
  "kept_points data offset m (Suc n) =
     filter (\<lambda>p. \<not> is_sentinel p) (map (sub_point data offset) [0..<m])
       @ kept_points data (offset + 14 * m) m n"
  by (simp add: kept_points_def positional_points_Suc del: upt_Suc)

lemma single_loop_eq:
  "single_loop n data offset points =
     (if 0 < n \<and> length data < offset + 14 * n then Inl IndexError
      else Inr (points @ kept_points data offset 1 n, offset + 14 * n))"
proof (induction n arbitrary: offset points)
  case 0
  show ?case by (simp add: kept_points_def)
next
  case (Suc n)
  have a: "append_return points (return_at data offset) 1 =
        points @ filter (\<lambda>p. \<not> is_sentinel p) [sub_point data offset 0]"
    using append_return_eq [of points data offset 0] by simp
  show ?case
    by (simp add: read_return_eq Suc.IH a kept_points_Suc)
qed

lemma double_loop_eq:
  "double_loop n data offset points =
     (if 0 < n \<and> length data < offset + 28 * n then Inl IndexError
      else Inr (points @ kept_points data offset 2 n, offset + 28 * n))"
proof (induction n arbitrary: offset points)
  case 0
  show ?case by (simp add: kept_points_def)
next
  case (Suc n)
  have a: "append_return ps (return_at data offset) 1 =
        ps @ filter (\<lambda>p. \<not> is_sentinel p) [sub_point data offset 0]" for ps
    using append_return_eq [of ps data offset 0] by simp
  have b: "append_return ps (return_at data (offset + 14)) 2 =
        ps @ filter (\<lambda>p. \<not> is_sentinel p) [sub_point data offset 1]" for ps
    using append_return_eq [of ps data offset 1] by simp
  have u: "[0..<2] = [0, Suc 0]" by (simp add: upt_conv_Cons)
  show ?case
    by (simp add: read_return_eq Suc.IH a b u kept_points_Suc)
qed

lemma triple_loop_eq:
  "triple_loop n data offset points =
     (if 0 < n \<and> length data < offset + 42 * n then Inl IndexError
      else Inr (points @ kept_points data offset 3 n, offset + 42 * n))"
proof (induction n arbitrary: offset points)
  case 0
  show ?case by (simp add: kept_points_def)
next
  case (Suc n)
  have a: "append_return ps (return_at data offset) 1 =
        ps @ filter (\<lambda>p. \<not> is_sentinel p) [sub_point data offset 0]" for ps
    using append_return_eq [of ps data offset 0] by simp
  have b: "append_return ps (return_at data (offset + 14)) 2 =
        ps @ filter (\<lambda>p. \<not> is_sentinel p) [sub_point data offset 1]" for ps
    using append_return_eq [of ps data offset 1] by simp
  have c: "append_return ps (return_at data (offset + 28)) 3 =
        ps @ filter (\<lambda>p. \<not> is_sentinel p) [sub_point data offset 2]" for ps
    using append_return_eq [of ps data offset 2] by simp
  have u: "[0..<3] = [0, Suc 0, 2]" by (simp add: upt_conv_Cons)
  show ?case
    by (simp add: read_return_eq Suc.IH a b c u kept_points_Suc)
qed

lemma length_slice: "length (slice data a b) = min (b - a) (length data - a)"
  by (simp add: slice_def)

lemma package_header_eq:
  "package_header data offset =
     (if offset + 5 > length data then Inl IndexError
      else if offset + 9 > length data then Inl StructError
      else if offset + 11 > length data then Inl IndexError
      else if offset + 19 > length data then Inl StructError
      else Inr (uint (data ! (offset + 10)),
                from_bytes_le (slice data (offset + 11) (offset + 19)), offset + 19))"
  by (auto simp add: package_header_def get_byte_def unpack_uint_def length_slice)

text \<open>
  The fields of the package at \<open>offset\<close>, where its bytes are in the buffer: the
  \<open>data_type\<close> byte, the timestamp, and the IMU record of a payload of data type 6.
\<close>

definition data_type_at :: "byte list \<Rightarrow> nat \<Rightarrow> int" where
  "data_type_at data offset = uint (data ! (offset + 10))"

definition timestamp_at :: "byte list \<Rightarrow> nat \<Rightarrow> int" where
  "timestamp_at data offset = from_bytes_le (slice data (offset + 11) (offset + 19))"

definition imu_at :: "byte list \<Rightarrow> nat \<Rightarrow> imu_record" where
  "imu_at data offset =
     (timestamp_at data offset,
      float_bits (slice data (offset + 19) (offset + 23)),
      float_bits (slice data (offset + 23) (offset + 27)),
      float_bits (slice data (offset + 27) (offset + 31)),
      float_bits (slice data (offset + 31) (offset + 35)),
      float_bits (slice data (offset + 35) (offset + 39)),
      float_bits (slice data (offset + 39) (offset + 43)))"

lemma slice_slice:
  "c \<le> b - a \<Longrightarrow> slice (slice data a b) k c = slice data (a + k) (a + c)"
  unfolding slice_def
  by (simp add: drop_take min_def add.commute)

lemma unpack_6f_eq:
  "unpack_6f (slice data a (a + 24)) =
     (if length data < a + 24 then Inl StructError
      else Inr [float_bits (slice data a (a + 4)), float_bits (slice data (a + 4) (a + 8)),
                float_bits (slice data (a + 8) (a + 12)), float_bits (slice data (a + 12) (a + 16)),
                float_bits (slice data (a + 16) (a + 20)), float_bits (slice data (a + 20) (a + 24))])"
proof -
  have u: "[0..<6] = [0, 1, 2, 3, 4, 5::nat]" by (simp add: upt_conv_Cons)
  have l: "length (slice data a (a + 24)) = 24 \<longleftrightarrow> \<not> length data < a + 24"
    by (auto simp add: length_slice)
  show ?thesis
    unfolding unpack_6f_def l u by (simp add: slice_slice)
qed

text \<open>The branch for data type 6, named so that the proofs can treat it on its own.\<close>

definition imu_branch :: "byte list \<Rightarrow> int \<Rightarrow> nat \<Rightarrow> py_error + (point list \<times> imu_record option \<times> nat)" where
  "imu_branch data timestamp offset =
         bind_err (unpack_6f (slice data offset (offset + 24))) (\<lambda>imu.
           Inr ([], Some (timestamp, imu ! 0, imu ! 1, imu ! 2, imu ! 3, imu ! 4, imu ! 5),
                offset + 24))"

lemma imu_branch_eq:
  "imu_branch data (timestamp_at data offset) (offset + 19) =
     (if length data < offset + 43 then Inl StructError
      else Inr ([], Some (imu_at data offset), offset + 43))"
  unfolding imu_branch_def unpack_6f_eq
  by (simp add: imu_at_def add.assoc)

lemma process_package_short:
  assumes "length data < offset + 19"
  shows "process_package data offset =
     (if offset + 5 > length data then Inl IndexError
      else if offset + 9 > length data then Inl StructError
      else if offset + 11 > length data then Inl IndexError
      else Inl StructError)"
  using assms unfolding process_package_def package_header_eq by simp

lemma process_package_long:
  assumes "offset + 19 \<le> length data"
  shows "process_package data offset =
     (if data_type_at data offset = 2 then
        (if length data < offset + 1363 then Inl IndexError
         else Inr (kept_points data (offset + 19) 1 96, None, offset + 1363))
      else if data_type_at data offset = 4 then
        (if length data < offset + 1363 then Inl IndexError
         else Inr (kept_points data (offset + 19) 2 48, None, offset + 1363))
      else if data_type_at data offset = 7 then
        (if length data < offset + 1279 then Inl IndexError
         else Inr (kept_points data (offset + 19) 3 30, None, offset + 1279))
      else if data_type_at data offset = 6 then
        (if length data < offset + 43 then Inl StructError
         else Inr ([], Some (imu_at data offset), offset + 43))
      else Inr ([], None, offset + 43))"
proof -
  have h: "package_header data offset =
      Inr (data_type_at data offset, timestamp_at data offset, offset + 19)"
    using assms by (simp add: package_header_eq data_type_at_def timestamp_at_def)
  have p: "process_package data offset =
       (if data_type_at data offset = 2 then
         bind_err (single_loop 96 data (offset + 19) []) (\<lambda>(points, offset). Inr (points, None, offset))
       else if data_type_at data offset = 4 then
         bind_err (double_loop 48 data (offset + 19) []) (\<lambda>(points, offset). Inr (points, None, offset))
       else if data_type_at data offset = 7 then
         bind_err (triple_loop 30 data (offset + 19) []) (\<lambda>(points, offset). Inr (points, None, offset))
       else if data_type_at data offset = 6 then
         imu_branch data (timestamp_at data offset) (offset + 19)
       else Inr ([], None, offset + 19 + 24))"
    unfolding process_package_def imu_branch_def h bind_err_simps prod.case ..
  have s: "bind_err (single_loop 96 data (offset + 19) []) (\<lambda>(points, offset). Inr (points, None, offset))
      = (if length data < offset + 1363 then Inl IndexError
         else Inr (kept_points data (offset + 19) 1 96, None, offset + 1363))"
    by (simp add: single_loop_eq)
  have d: "bind_err (double_loop 48 data (offset + 19) []) (\<lambda>(points, offset). Inr (points, None, offset))
      = (if length data < offset + 1363 then Inl IndexError
         else Inr (kept_points data (offset + 19) 2 48, None, offset + 1363))"
    by (simp add: double_loop_eq)
  have t: "bind_err (triple_loop 30 data (offset + 19) []) (\<lambda>(points, offset). Inr (points, None, offset))
      = (if length data < offset + 1279 then Inl IndexError
         else Inr (kept_points data (offset + 19) 3 30, None, offset + 1279))"
    by (simp add: triple_loop_eq)
  have e: "offset + 19 + 24 = offset + 43" by simp
  show ?thesis
    unfolding p s d t e imu_branch_eq ..
qed


lemma process_package_eq:
  "process_package data offset =
     (if offset + 5 > length data then Inl IndexError
      else if offset + 9 > length data then Inl StructError
      else if offset + 11 > length data then Inl IndexError
      else if offset + 19 > length data then Inl StructError
      else if data_type_at data offset = 2 then
        (if length data < offset + 1363 then Inl IndexError
         else Inr (kept_points data (offset + 19) 1 96, None, offset + 1363))
      else if data_type_at data offset = 4 then
        (if length data < offset + 1363 then Inl IndexError
         else Inr (kept_points data (offset + 19) 2 48, None, offset + 1363))
      else if data_type_at data offset = 7 then
        (if length data < offset + 1279 then Inl IndexError
         else Inr (kept_points data (offset + 19) 3 30, None, offset + 1279))
      else if data_type_at data offset = 6 then
        (if length data < offset + 43 then Inl StructError
         else Inr ([], Some (imu_at data offset), offset + 43))
      else Inr ([], None, offset + 43))"
proof (cases "length data < offset + 19")
  case True
  then show ?thesis by (simp add: process_package_short)
next
  case False
  then have "offset + 19 \<le> length data" by simp
  from process_package_long [OF this] False show ?thesis by simp
qed

lemma process_package_advance:
  "process_package data offset = Inr (pts, imu, offset') \<Longrightarrow> offset + 43 \<le> offset'"
  by (simp add: process_package_eq split: if_splits)


subsection \<open>\<open>process_frame\<close>\<close>

text \<open>
  The \<open>while offset < frame_end\<close> loop. \<open>frame_end\<close> is the integer that
  \<open>struct.unpack('<Q')\<close> read from the frame header. \<open>if pts:\<close> skips an empty list,
  \<open>if imu:\<close> skips \<open>None\<close> (a 7-tuple is always true).
\<close>

function process_frame_loop ::
  "byte list \<Rightarrow> nat \<Rightarrow> int \<Rightarrow> point list \<Rightarrow> imu_record list
     \<Rightarrow> py_error + (point list \<times> imu_record list \<times> nat)" where
  "process_frame_loop data offset frame_end frame_points frame_imu =
     (if int offset < frame_end then
        (case process_package data offset of
           Inl e \<Rightarrow> Inl e
         | Inr (pts, imu, offset') \<Rightarrow>
             process_frame_loop data offset' frame_end
               (if pts \<noteq> [] then frame_points @ pts else frame_points)
               (case imu of Some r \<Rightarrow> frame_imu @ [r] | None \<Rightarrow> frame_imu))
      else Inr (frame_points, frame_imu, offset))"
  by pat_completeness auto
termination
proof (relation "measure (\<lambda>(data, offset, frame_end, frame_points, frame_imu). nat (frame_end - int offset))")
  show "wf (measure (\<lambda>(data, offset, frame_end, frame_points, frame_imu). nat (frame_end - int offset)))"
    by simp
next
  fix data :: "byte list" and offset :: nat and frame_end :: int
    and frame_points :: "point list" and frame_imu :: "imu_record list"
    and r x y pts imu offset'
  assume "int offset < frame_end" and "process_package data offset = Inr r"
    and "(pts, y) = r" and "(imu, offset') = y"
  then have "process_package data offset = Inr (pts, imu, offset')" by simp
  from process_package_advance [OF this] \<open>int offset < frame_end\<close>
  show "((data, offset', frame_end,
          if pts \<noteq> [] then frame_points @ pts else frame_points,
          case imu of None \<Rightarrow> frame_imu | Some r \<Rightarrow> frame_imu @ [r]),
         data, offset, frame_end, frame_points, frame_imu)
        \<in> measure (\<lambda>(data, offset, frame_end, frame_points, frame_imu). nat (frame_end - int offset))"
    by simp
qed

declare process_frame_loop.simps [simp del]

definition process_frame ::
  "byte list \<Rightarrow> nat \<Rightarrow> int \<Rightarrow> py_error + (point list \<times> imu_record list \<times> nat)" where
  "process_frame data offset frame_end = process_frame_loop data offset frame_end [] []"


lemma process_frame_loop_offset:
  "process_frame_loop data offset frame_end frame_points frame_imu = Inr (ps, is, offset')
     \<Longrightarrow> offset \<le> offset'"
proof (induction data offset frame_end frame_points frame_imu rule: process_frame_loop.induct)
  case (1 data offset frame_end frame_points frame_imu)
  show ?case
  proof (cases "int offset < frame_end")
    case False
    with "1.prems" show ?thesis by (simp add: process_frame_loop.simps)
  next
    case True
    show ?thesis
    proof (cases "process_package data offset")
      case (Inl e)
      with True "1.prems" show ?thesis by (simp add: process_frame_loop.simps)
    next
      case (Inr r)
      obtain pts imu off1 where r: "r = (pts, imu, off1)" by (cases r) auto
      have adv: "offset + 43 \<le> off1"
        using Inr r by (simp add: process_package_advance)
      have "process_frame_loop data off1 frame_end
               (if pts \<noteq> [] then frame_points @ pts else frame_points)
               (case imu of Some r \<Rightarrow> frame_imu @ [r] | None \<Rightarrow> frame_imu) = Inr (ps, is, offset')"
        using "1.prems" True Inr r by (simp add: process_frame_loop.simps [of data offset])
      then have "off1 \<le> offset'"
        using "1.IH" [OF True Inr r [symmetric] refl] by simp
      with adv show ?thesis by simp
    qed
  qed
qed

lemma process_frame_offset:
  "process_frame data offset frame_end = Inr (ps, is, offset') \<Longrightarrow> offset \<le> offset'"
  unfolding process_frame_def by (rule process_frame_loop_offset)

subsection \<open>\<open>process_lvx\<close>\<close>

text \<open>
  Lines 160 to 165: the 24-byte public header is skipped, \<open>frame_duration\<close> is unpacked
  from bytes 24 to 27, \<open>device_count\<close> is byte 28, and the offset of the first frame is
  \<open>24 + 4 + 1 + device_count * 59\<close>. Nothing compares that offset with the length of
  the buffer.
\<close>

definition lvx_header :: "byte list \<Rightarrow> py_error + (int \<times> int \<times> nat)" where
  "lvx_header data =
     bind_err (unpack_uint 4 (slice data 24 28)) (\<lambda>frame_duration.
     bind_err (get_byte data 28) (\<lambda>device_count.
     Inr (frame_duration, device_count, 24 + 4 + 1 + nat device_count * 59)))"

text \<open>Lines 180 to 182: the three \<open>struct.unpack('<Q')\<close> of a frame header.\<close>

definition frame_header :: "byte list \<Rightarrow> nat \<Rightarrow> py_error + (int \<times> int \<times> int \<times> nat)" where
  "frame_header data offset =
     bind_err (unpack_uint 8 (slice data offset (offset + 8))) (\<lambda>current_offset.
     bind_err (unpack_uint 8 (slice data (offset + 8) (offset + 16))) (\<lambda>next_offset.
     bind_err (unpack_uint 8 (slice data (offset + 16) (offset + 24))) (\<lambda>frame_index.
     Inr (current_offset, next_offset, frame_index, offset + 24))))"

text \<open>
  What \<open>process_lvx\<close> hands to its output functions. \<open>ChunkFiles i points imu\<close> is the
  pair of calls \<open>create_las_from_points(chunk_points, ...)\<close> and
  \<open>write_imu_csv(chunk_imu, ...)\<close> for chunk \<open>i\<close>; \<open>AllFiles\<close> is the pair of calls for
  \<open>_All.las\<close> and \<open>_All.csv\<close>; \<open>OverallCsv\<close> is the call for \<open>_imu_overall.csv\<close>.
  The file names are determined by the chunk index and the name of the input. The
  output functions are outside this model and are taken to return; so is the reading
  of the file, whose bytes are the argument \<open>data\<close>.
\<close>

datatype emission =
    ChunkFiles int "point list" "imu_record list"
  | AllFiles "point list" "imu_record list"
  | OverallCsv "imu_record list"

text \<open>The local variables of \<open>process_lvx\<close>, and the calls made so far.\<close>

record lvx_state =
  st_offset :: nat
  total_frames :: int
  chunk_index :: int
  overall_imu :: "imu_record list"
  chunk_points :: "point list"
  chunk_imu :: "imu_record list"
  all_points :: "point list"
  all_imu :: "imu_record list"
  emitted :: "emission list"

definition initial_state :: "nat \<Rightarrow> lvx_state" where
  "initial_state offset =
     \<lparr>st_offset = offset, total_frames = 0, chunk_index = 0, overall_imu = [],
      chunk_points = [], chunk_imu = [], all_points = [], all_imu = [], emitted = []\<rparr>"

text \<open>Lines 186 to 204: what one iteration does once \<open>process_frame\<close> has returned.\<close>

definition add_frame ::
  "byte list \<Rightarrow> int \<Rightarrow> lvx_state \<Rightarrow> point list \<Rightarrow> imu_record list \<Rightarrow> nat \<Rightarrow> lvx_state" where
  "add_frame data frames_per_output s frame_points frame_imu offset' =
     (let s1 = s\<lparr>st_offset := offset', total_frames := total_frames s + 1\<rparr> in
      if frames_per_output = 0 then
        s1\<lparr>all_points := all_points s1 @ frame_points, all_imu := all_imu s1 @ frame_imu\<rparr>
      else
        (let s2 = s1\<lparr>chunk_points := chunk_points s1 @ frame_points,
                      chunk_imu := chunk_imu s1 @ frame_imu,
                      overall_imu := overall_imu s1 @ frame_imu\<rparr> in
         if total_frames s2 mod frames_per_output = 0 \<or> length data \<le> st_offset s2 then
           s2\<lparr>emitted := emitted s2 @ [ChunkFiles (chunk_index s2) (chunk_points s2) (chunk_imu s2)],
              chunk_index := chunk_index s2 + 1, chunk_points := [], chunk_imu := []\<rparr>
         else s2))"

lemma st_offset_add_frame [simp]:
  "st_offset (add_frame data frames_per_output s frame_points frame_imu offset') = offset'"
  by (simp add: add_frame_def Let_def)

text \<open>
  The \<open>while offset < len(data)\<close> loop with its \<open>break\<close>. An exception leaves the loop
  with the calls made so far.
\<close>

function lvx_loop :: "byte list \<Rightarrow> int \<Rightarrow> lvx_state \<Rightarrow> py_error option \<times> lvx_state" where
  "lvx_loop data frames_per_output s =
     (if st_offset s < length data then
        if st_offset s + 24 > length data then (None, s)
        else
          (case frame_header data (st_offset s) of
             Inl e \<Rightarrow> (Some e, s)
           | Inr (current_offset, next_offset, frame_index, offset) \<Rightarrow>
               (case process_frame data offset next_offset of
                  Inl e \<Rightarrow> (Some e, s)
                | Inr (frame_points, frame_imu, offset') \<Rightarrow>
                    lvx_loop data frames_per_output
                      (add_frame data frames_per_output s frame_points frame_imu offset')))
      else (None, s))"
  by pat_completeness auto
termination
proof (relation "measure (\<lambda>(data, frames_per_output, s). length data - st_offset s)")
  show "wf (measure (\<lambda>(data, frames_per_output, s). length data - st_offset s))"
    by simp
next
  fix data :: "byte list" and frames_per_output :: int and s :: lvx_state
    and h current_offset y1 next_offset y2 frame_index offset r frame_points y3 frame_imu offset'
  assume lt: "st_offset s < length data"
    and fh: "frame_header data (st_offset s) = Inr h"
    and h: "(current_offset, y1) = h" "(next_offset, y2) = y1" "(frame_index, offset) = y2"
    and pf: "process_frame data offset next_offset = Inr r"
    and r: "(frame_points, y3) = r" "(frame_imu, offset') = y3"
  have "offset = st_offset s + 24"
    using fh h by (auto simp add: frame_header_def bind_err_def split: sum.splits)
  moreover have "offset \<le> offset'"
    using pf r by (auto dest: process_frame_offset)
  ultimately show "((data, frames_per_output,
           add_frame data frames_per_output s frame_points frame_imu offset'),
          data, frames_per_output, s)
         \<in> measure (\<lambda>(data, frames_per_output, s). length data - st_offset s)"
    using lt by simp
qed

declare lvx_loop.simps [simp del]

text \<open>
  \<open>process_lvx\<close> on the bytes of the file: the header, the loop, then the calls after
  the loop. The result is the exception, if one was raised, and the calls made.
\<close>

definition lvx_run :: "byte list \<Rightarrow> int \<Rightarrow> py_error option \<times> lvx_state" where
  "lvx_run data frames_per_output =
     (case lvx_header data of
        Inl e \<Rightarrow> (Some e, initial_state 0)
      | Inr (frame_duration, device_count, offset) \<Rightarrow>
          lvx_loop data frames_per_output (initial_state offset))"

definition process_lvx :: "byte list \<Rightarrow> int \<Rightarrow> py_error option \<times> emission list" where
  "process_lvx data frames_per_output =
     (case lvx_run data frames_per_output of
        (Some e, s) \<Rightarrow> (Some e, emitted s)
      | (None, s) \<Rightarrow>
          (let s' = (if frames_per_output = 0
                     then s\<lparr>emitted := emitted s @ [AllFiles (all_points s) (all_imu s)],
                            overall_imu := all_imu s\<rparr>
                     else s)
           in (None, emitted s' @ [OverallCsv (overall_imu s')])))"


subsection \<open>\<open>main\<close>\<close>





section \<open>Decoding concrete buffers\<close>

text \<open>
  A stretch of zero bytes decodes to sentinel returns only; this is what lets the long
  payloads of the examples below be evaluated.
\<close>

lemma from_bytes_le_zeros [simp]: "from_bytes_le (replicate n 0) = 0"
  by (induction n) simp_all

lemma from_bytes_signed_zeros [simp]: "from_bytes_signed (replicate n 0) = 0"
  by (simp add: from_bytes_signed_def)

lemma slice_zeros:
  assumes "a + n \<le> length data" and "\<forall>j<n. data ! (a + j) = 0"
  shows "slice data a (a + n) = replicate n 0"
proof (rule nth_equalityI)
  show "length (slice data a (a + n)) = length (replicate n (0::byte))"
    using assms(1) by (simp add: length_slice)
next
  fix i assume "i < length (slice data a (a + n))"
  then have "i < n" by (simp add: length_slice)
  then show "slice data a (a + n) ! i = replicate n 0 ! i"
    using assms by (simp add: slice_def)
qed

lemma return_at_zeros:
  assumes "offset + 14 \<le> length data" and "\<forall>j<14. data ! (offset + j) = 0"
  shows "return_at data offset = (0, 0, 0, 0, 0)"
proof -
  have a: "slice data offset (offset + 4) = replicate 4 0"
    using assms by (intro slice_zeros) auto
  have b: "slice data (offset + 4) (offset + 4 + 4) = replicate 4 0"
    using assms by (intro slice_zeros) (auto simp add: add.assoc)
  have c: "slice data (offset + 8) (offset + 8 + 4) = replicate 4 0"
    using assms by (intro slice_zeros) (auto simp add: add.assoc)
  have d: "data ! (offset + 12) = 0" "data ! (offset + 13) = 0"
    using assms(2) by auto
  from b c have b': "slice data (offset + 4) (offset + 8) = replicate 4 0"
    and c': "slice data (offset + 8) (offset + 12) = replicate 4 0"
    by (simp_all add: add.assoc)
  show ?thesis
    unfolding return_at_def a b' c' d by simp
qed

lemma kept_points_zeros:
  assumes "offset + 14 * m * n \<le> length data"
    and "\<forall>j. offset \<le> j \<and> j < offset + 14 * m * n \<longrightarrow> data ! j = 0"
  shows "kept_points data offset m n = []"
proof -
  have "is_sentinel (sub_point data (offset + 14 * m * i) k)" if "i < n" and "k < m" for i k
  proof -
    have "m * i + k + 1 \<le> m * n"
    proof -
      have "m * i + k + 1 \<le> m * i + m" using that by simp
      also have "\<dots> = m * Suc i" by simp
      also have "\<dots> \<le> m * n" using that by (intro mult_le_mono2) simp
      finally show ?thesis .
    qed
    then have le: "offset + 14 * m * i + 14 * k + 14 \<le> offset + 14 * m * n"
      by (simp add: algebra_simps)
    have "return_at data (offset + 14 * m * i + 14 * k) = (0, 0, 0, 0, 0)"
    proof (rule return_at_zeros)
      show "offset + 14 * m * i + 14 * k + 14 \<le> length data"
        using le assms(1) by simp
      show "\<forall>j<14. data ! (offset + 14 * m * i + 14 * k + j) = 0"
        using le assms(2) by simp
    qed
    then show ?thesis by (simp add: sub_point_def is_sentinel_def)
  qed
  then show ?thesis
    by (auto simp add: kept_points_def positional_points_def filter_empty_conv)
qed

lemma from_bytes_signed_4:
  "from_bytes_signed [a, b, c, d] =
     (let u = uint a + 256 * (uint b + 256 * (uint c + 256 * uint d)) in
      if 2147483648 \<le> u then u - 4294967296 else u)"
  by (simp add: from_bytes_signed_def Let_def)

text \<open>
  A capture file with one frame holding one package of data type 2: the 29-byte file
  header with \<open>device_count = 0\<close>; the frame header with \<open>next_offset = 1416\<close>; the
  package header; the entry \<open>(x=1000, y=2000, z=3000, reflectivity=50, tag=0)\<close>; 95
  all-zero entries; and \<open>trailing\<close> further zero bytes after the frame.
\<close>

definition capture_file :: "nat \<Rightarrow> byte list" where
  "capture_file trailing =
     replicate 28 0 @ [0]
       @ [0, 0, 0, 0, 0, 0, 0, 0,  0x88, 5, 0, 0, 0, 0, 0, 0,  0, 0, 0, 0, 0, 0, 0, 0]
       @ replicate 10 0 @ [2] @ replicate 8 0
       @ [0xE8, 3, 0, 0,  0xD0, 7, 0, 0,  0xB8, 0x0B, 0, 0,  50, 0]
       @ replicate 1330 0
       @ replicate trailing 0"

lemma length_capture_file [simp]: "length (capture_file t) = 1416 + t"
  by (simp add: capture_file_def)

lemma capture_file_type: "data_type_at (capture_file t) 53 = 2"
  by (simp add: data_type_at_def capture_file_def nth_append)

lemma capture_file_package:
  "process_package (capture_file t) 53 = Inr ([(1000, 2000, 3000, 50, 1)], None, 1416)"
proof -
  have z: "kept_points (capture_file t) 86 1 95 = []"
    by (rule kept_points_zeros) (auto simp add: capture_file_def nth_append)
  have p: "sub_point (capture_file t) 72 0 = (1000, 2000, 3000, 50, 1)"
    by (simp add: sub_point_def return_at_def slice_def capture_file_def
        from_bytes_signed_4 nth_append)
  have k: "kept_points (capture_file t) 72 1 96 = [(1000, 2000, 3000, 50, 1)]"
    using kept_points_Suc [of "capture_file t" 72 1 95] z p
    by (simp add: is_sentinel_def)
  have d: "data_type_at (capture_file t) 53 = 2"
    by (simp add: data_type_at_def capture_file_def nth_append)
  show ?thesis
    by (simp add: process_package_eq d k del: One_nat_def)
qed

lemma capture_file_frame:
  "process_frame (capture_file t) 53 1416 = Inr ([(1000, 2000, 3000, 50, 1)], [], 1416)"
  unfolding process_frame_def
  by (simp add: process_frame_loop.simps [of _ 53] process_frame_loop.simps [of _ 1416]
      capture_file_package)

lemma from_bytes_le_8:
  "from_bytes_le [a, b, c, d, e, f, g, h] =
     uint a + 256 * (uint b + 256 * (uint c + 256 * (uint d + 256 * (uint e
       + 256 * (uint f + 256 * (uint g + 256 * uint h))))))"
  by simp

lemma capture_file_lvx_header: "lvx_header (capture_file t) = Inr (0, 0, 29)"
  by (simp add: lvx_header_def unpack_uint_def get_byte_def slice_def capture_file_def nth_append)

lemma capture_file_frame_header:
  "frame_header (capture_file t) 29 = Inr (0, 1416, 0, 53)"
  by (simp add: frame_header_def unpack_uint_def slice_def capture_file_def)


lemma capture_file_run:
  assumes "t < 24"
  shows "lvx_run (capture_file t) n =
     (None, add_frame (capture_file t) n (initial_state 29) [(1000, 2000, 3000, 50, 1)] [] 1416)"
proof -
  let ?s = "add_frame (capture_file t) n (initial_state 29) [(1000, 2000, 3000, 50, 1)] [] 1416"
  have a: "lvx_loop (capture_file t) n (initial_state 29) = lvx_loop (capture_file t) n ?s"
    by (subst lvx_loop.simps)
      (simp add: initial_state_def capture_file_frame_header capture_file_frame)
  have b: "lvx_loop (capture_file t) n ?s = (None, ?s)"
    using assms by (subst lvx_loop.simps) simp
  show ?thesis
    by (simp add: lvx_run_def capture_file_lvx_header a b)
qed

subsection \<open>Sentinels never reach the output\<close>

text \<open>The points of one call to an output function.\<close>

definition emission_points :: "emission \<Rightarrow> point list" where
  "emission_points e =
     (case e of ChunkFiles i points imu \<Rightarrow> points | AllFiles points imu \<Rightarrow> points
      | OverallCsv imu \<Rightarrow> [])"

lemma kept_points_not_sentinel: "p \<in> set (kept_points data offset m n) \<Longrightarrow> \<not> is_sentinel p"
  by (simp add: kept_points_def)

lemma process_package_not_sentinel:
  "process_package data offset = Inr (pts, imu, offset') \<Longrightarrow> p \<in> set pts \<Longrightarrow> \<not> is_sentinel p"
  by (auto simp add: process_package_eq kept_points_not_sentinel split: if_splits)

lemma process_frame_loop_not_sentinel:
  "process_frame_loop data offset frame_end frame_points frame_imu = Inr (ps, is, offset')
     \<Longrightarrow> \<forall>p\<in>set frame_points. \<not> is_sentinel p \<Longrightarrow> \<forall>p\<in>set ps. \<not> is_sentinel p"
proof (induction data offset frame_end frame_points frame_imu rule: process_frame_loop.induct)
  case (1 data offset frame_end frame_points frame_imu)
  show ?case
  proof (cases "int offset < frame_end")
    case False
    with "1.prems" show ?thesis by (simp add: process_frame_loop.simps)
  next
    case True
    show ?thesis
    proof (cases "process_package data offset")
      case (Inl e)
      with True "1.prems" show ?thesis by (simp add: process_frame_loop.simps)
    next
      case (Inr r)
      obtain pts imu off1 where r: "r = (pts, imu, off1)" by (cases r) auto
      let ?fp = "if pts \<noteq> [] then frame_points @ pts else frame_points"
      have ok: "\<forall>p\<in>set ?fp. \<not> is_sentinel p"
        using "1.prems"(2) process_package_not_sentinel [of data offset pts imu off1] Inr r
        by auto
      have "process_frame_loop data off1 frame_end ?fp
               (case imu of Some r \<Rightarrow> frame_imu @ [r] | None \<Rightarrow> frame_imu) = Inr (ps, is, offset')"
        using "1.prems" True Inr r by (simp add: process_frame_loop.simps [of data offset])
      then show ?thesis
        using "1.IH" [OF True Inr r [symmetric] refl] ok by simp
    qed
  qed
qed

lemma process_frame_not_sentinel:
  "process_frame data offset frame_end = Inr (ps, is, offset') \<Longrightarrow> p \<in> set ps
     \<Longrightarrow> \<not> is_sentinel p"
  unfolding process_frame_def using process_frame_loop_not_sentinel by fastforce

text \<open>The invariant of the loop of \<open>process_lvx\<close>: no sentinel is held or was handed out.\<close>

definition state_clean :: "lvx_state \<Rightarrow> bool" where
  "state_clean s =
     ((\<forall>p\<in>set (chunk_points s). \<not> is_sentinel p) \<and> (\<forall>p\<in>set (all_points s). \<not> is_sentinel p)
      \<and> (\<forall>e\<in>set (emitted s). \<forall>p\<in>set (emission_points e). \<not> is_sentinel p))"

lemma add_frame_clean:
  "state_clean s \<Longrightarrow> \<forall>p\<in>set frame_points. \<not> is_sentinel p
     \<Longrightarrow> state_clean (add_frame data n s frame_points frame_imu offset')"
  by (auto simp add: state_clean_def add_frame_def Let_def emission_points_def)

text \<open>
  An invariant that every iteration of the loop of \<open>process_lvx\<close> keeps holds of the
  state the loop ends in, whether it ends normally, by \<open>break\<close> or by an exception.
\<close>

lemma frame_header_offset:
  "frame_header data offset = Inr (c, nx, fi, off) \<Longrightarrow> off = offset + 24"
  by (auto simp add: frame_header_def bind_err_def split: sum.splits)

lemma lvx_loop_preserves:
  assumes "lvx_loop data n s = (err, s')" and "I s"
    and step: "\<And>s nx fp fim off'. I s \<Longrightarrow> st_offset s + 24 \<le> length data
      \<Longrightarrow> process_frame data (st_offset s + 24) nx = Inr (fp, fim, off')
      \<Longrightarrow> I (add_frame data n s fp fim off')"
  shows "I s'"
  using assms
proof (induction data n s rule: lvx_loop.induct)
  case (1 data n s)
  show ?case
  proof (cases "st_offset s < length data \<and> \<not> st_offset s + 24 > length data")
    case False
    with "1.prems" show ?thesis
      by (auto simp add: lvx_loop.simps [of data n s] split: if_splits)
  next
    case True
    show ?thesis
    proof (cases "frame_header data (st_offset s)")
      case (Inl e)
      with True "1.prems" show ?thesis by (auto simp add: lvx_loop.simps [of data n s])
    next
      case (Inr h)
      obtain c nx fi off where h: "h = (c, nx, fi, off)" by (cases h) auto
      have off: "off = st_offset s + 24"
        using Inr h by (auto dest: frame_header_offset)
      show ?thesis
      proof (cases "process_frame data off nx")
        case (Inl e)
        with True Inr h "1.prems" show ?thesis by (auto simp add: lvx_loop.simps [of data n s])
      next
        case r: (Inr r)
        obtain fp fim off' where r': "r = (fp, fim, off')" by (cases r) auto
        have run: "lvx_loop data n (add_frame data n s fp fim off') = (err, s')"
          using True Inr h r r' "1.prems"(1) by (simp add: lvx_loop.simps [of data n s])
        have inv: "I (add_frame data n s fp fim off')"
          using "1.prems"(2) r r' off True by (intro "1.prems"(3)) auto
        have a: "st_offset s < length data" and b: "\<not> length data < st_offset s + 24"
          using True by simp_all
        from "1.IH" [OF a b Inr h [symmetric] refl refl r r' [symmetric] refl run inv "1.prems"(3)]
        show ?thesis .
      qed
    qed
  qed
qed

lemma lvx_loop_clean:
  assumes "lvx_loop data n s = (err, s')" and "state_clean s"
  shows "state_clean s'"
  using assms
proof (rule lvx_loop_preserves)
  fix s nx fp fim off'
  assume "state_clean s" and "process_frame data (st_offset s + 24) nx = Inr (fp, fim, off')"
  then show "state_clean (add_frame data n s fp fim off')"
    by (intro add_frame_clean) (auto dest: process_frame_not_sentinel)
qed

lemma process_lvx_clean:
  "e \<in> set (snd (process_lvx data n)) \<Longrightarrow> p \<in> set (emission_points e) \<Longrightarrow> \<not> is_sentinel p"
proof -
  assume e: "e \<in> set (snd (process_lvx data n))" and p: "p \<in> set (emission_points e)"
  obtain err s where run: "lvx_run data n = (err, s)" by (cases "lvx_run data n") auto
  have "state_clean s"
  proof (cases "lvx_header data")
    case (Inl x)
    with run show ?thesis by (auto simp add: lvx_run_def state_clean_def initial_state_def)
  next
    case (Inr h)
    obtain fd dc off where "h = (fd, dc, off)" by (cases h) auto
    with Inr run have "lvx_loop data n (initial_state off) = (err, s)"
      by (simp add: lvx_run_def)
    moreover have "state_clean (initial_state off)"
      by (simp add: state_clean_def initial_state_def)
    ultimately show ?thesis by (rule lvx_loop_clean)
  qed
  with e p run show ?thesis
    by (cases err) (auto simp add: process_lvx_def state_clean_def emission_points_def Let_def
        split: if_splits)
qed

text \<open>
  One package of data type 7 at offset 0. Its first entry holds an all-zero first return,
  a second return \<open>(0, 0, 0)\<close> with reflectivity 7, and a third return \<open>(-1, 0, 0)\<close> with
  reflectivity 0; the other 29 entries are zero.
\<close>

definition triple_return_package :: "byte list" where
  "triple_return_package =
     replicate 10 0 @ [7] @ replicate 8 0
       @ replicate 14 0
       @ [0, 0, 0, 0,  0, 0, 0, 0,  0, 0, 0, 0,  7, 0]
       @ [0xFF, 0xFF, 0xFF, 0xFF,  0, 0, 0, 0,  0, 0, 0, 0,  0, 0]
       @ replicate 1218 0"

lemma triple_return_package_returns:
  "return_at triple_return_package 19 = (0, 0, 0, 0, 0)"
  "return_at triple_return_package 33 = (0, 0, 0, 7, 0)"
  "return_at triple_return_package 47 = (- 1, 0, 0, 0, 0)"
  by (simp_all add: return_at_def slice_def triple_return_package_def
      from_bytes_signed_4 nth_append)

lemma triple_return_package_positional:
  "map (sub_point triple_return_package 19) [0..<3] =
     [(0, 0, 0, 0, 1), (0, 0, 0, 7, 2), (- 1, 0, 0, 0, 3)]"
proof -
  have u: "[0..<3] = [0, 1, 2]" by (simp add: upt_conv_Cons)
  show ?thesis
    unfolding u using triple_return_package_returns by (simp add: sub_point_def)
qed

lemma triple_return_package_kept:
  "kept_points triple_return_package 19 3 30 = [(0, 0, 0, 7, 2), (- 1, 0, 0, 0, 3)]"
proof -
  have z: "kept_points triple_return_package 61 3 29 = []"
    by (rule kept_points_zeros) (auto simp add: triple_return_package_def nth_append)
  show ?thesis
    using kept_points_Suc [of triple_return_package 19 3 29] z
    by (simp add: triple_return_package_positional is_sentinel_def)
qed

lemma triple_return_package_type: "data_type_at triple_return_package 0 = 7"
  by (simp add: data_type_at_def triple_return_package_def nth_append)

lemma triple_return_package_decodes:
  "process_package triple_return_package 0 =
     Inr ([(0, 0, 0, 7, 2), (- 1, 0, 0, 0, 3)], None, 1279)"
  by (simp add: process_package_eq triple_return_package_type triple_return_package_kept)
    (simp add: triple_return_package_def)

subsection \<open>The layout of a payload\<close>

text \<open>
  The layout of the claims: how many returns an entry of each point data type holds, and
  how many entries a package holds. \<open>positional_points\<close> above lists every return of
  a payload in order, the \<open>k\<close>-th return of an entry (counting from 0) with return
  number \<open>k + 1\<close>, before any filtering.
\<close>

definition returns_per_entry :: "int \<Rightarrow> nat" where
  "returns_per_entry data_type =
     (if data_type = 2 then 1 else if data_type = 4 then 2 else if data_type = 7 then 3 else 0)"

definition entry_count :: "int \<Rightarrow> nat" where
  "entry_count data_type =
     (if data_type = 2 then 96 else if data_type = 4 then 48 else if data_type = 7 then 30 else 0)"

text \<open>
  The payload sizes of the claim: 1344 bytes for data types 2 and 4, 1260 for 7, 24 for
  6 and 24 for any other value.
\<close>

definition payload_size :: "int \<Rightarrow> nat" where
  "payload_size data_type =
     (if data_type = 2 then 1344 else if data_type = 4 then 1344
      else if data_type = 7 then 1260 else if data_type = 6 then 24 else 24)"

definition return_number :: "point \<Rightarrow> int" where
  "return_number p = (case p of (x, y, z, intensity, rn) \<Rightarrow> rn)"

lemma return_number_sub_point [simp]: "return_number (sub_point data offset k) = int k + 1"
  by (simp add: return_number_def sub_point_def split: prod.splits)

lemma positional_points_return_number:
  "p \<in> set (positional_points data offset m n) \<Longrightarrow> 1 \<le> return_number p \<and> return_number p \<le> int m"
  by (auto simp add: positional_points_def)

lemma sub_point_in_positional:
  assumes "i < n" and "k < m"
  shows "sub_point data (offset + 14 * m * i) k \<in> set (positional_points data offset m n)"
proof -
  let ?f = "\<lambda>i. map (sub_point data (offset + 14 * m * i)) [0..<m]"
  have "i \<in> set [0..<n]" using assms(1) by simp
  then have a: "?f i \<in> set (map ?f [0..<n])"
    unfolding set_map by (rule imageI)
  have "k \<in> set [0..<m]" using assms(2) by simp
  then have b: "sub_point data (offset + 14 * m * i) k \<in> set (?f i)"
    unfolding set_map by (rule imageI)
  from a b have "\<exists>xs\<in>set (map ?f [0..<n]). sub_point data (offset + 14 * m * i) k \<in> set xs"
    by (rule bexI [rotated])
  then show ?thesis
    unfolding positional_points_def set_concat by (rule UN_iff [THEN iffD2])
qed

lemma process_package_points:
  "process_package data offset = Inr (points, imu, offset') \<Longrightarrow>
     points = kept_points data (offset + 19) (returns_per_entry (data_type_at data offset))
                (entry_count (data_type_at data offset))"
  by (auto simp add: process_package_eq returns_per_entry_def entry_count_def kept_points_def
      split: if_splits)

subsection \<open>The offsets a frame visits\<close>

text \<open>
  The values that \<open>offset\<close> takes at the head of the \<open>while offset < frame_end\<close> loop of
  \<open>process_frame\<close>, in order, up to the one the loop ends at or the one where
  \<open>process_package\<close> raises.
\<close>

function frame_offsets :: "byte list \<Rightarrow> nat \<Rightarrow> int \<Rightarrow> nat list" where
  "frame_offsets data offset frame_end =
     (if int offset < frame_end then
        (case process_package data offset of
           Inl e \<Rightarrow> [offset]
         | Inr (pts, imu, offset') \<Rightarrow> offset # frame_offsets data offset' frame_end)
      else [offset])"
  by pat_completeness auto
termination
proof (relation "measure (\<lambda>(data, offset, frame_end). nat (frame_end - int offset))")
  show "wf (measure (\<lambda>(data, offset, frame_end). nat (frame_end - int offset)))"
    by simp
next
  fix data :: "byte list" and offset :: nat and frame_end :: int and r pts y imu offset'
  assume "int offset < frame_end" and "process_package data offset = Inr r"
    and "(pts, y) = r" and "(imu, offset') = y"
  then have "process_package data offset = Inr (pts, imu, offset')" by simp
  from process_package_advance [OF this] \<open>int offset < frame_end\<close>
  show "((data, offset', frame_end), data, offset, frame_end)
        \<in> measure (\<lambda>(data, offset, frame_end). nat (frame_end - int offset))"
    by simp
qed

declare frame_offsets.simps [simp del]

lemma frame_offsets_cases:
  obtains (stop) "\<not> int offset < frame_end" "frame_offsets data offset frame_end = [offset]"
  | (raises) e where "int offset < frame_end" "process_package data offset = Inl e"
      "frame_offsets data offset frame_end = [offset]"
  | (step) pts imu offset' where "int offset < frame_end"
      "process_package data offset = Inr (pts, imu, offset')"
      "frame_offsets data offset frame_end = offset # frame_offsets data offset' frame_end"
proof (cases "int offset < frame_end")
  case False
  then show ?thesis using stop by (simp add: frame_offsets.simps)
next
  case True
  show ?thesis
  proof (cases "process_package data offset")
    case (Inl e)
    with True show ?thesis using raises by (simp add: frame_offsets.simps)
  next
    case (Inr r)
    obtain pts imu offset' where "r = (pts, imu, offset')" by (cases r) auto
    with True Inr show ?thesis using step by (simp add: frame_offsets.simps)
  qed
qed

lemma frame_offsets_lower:
  "x \<in> set (frame_offsets data offset frame_end) \<Longrightarrow> offset \<le> x"
proof (induction data offset frame_end rule: frame_offsets.induct)
  case (1 data offset frame_end)
  show ?case
  proof (cases rule: frame_offsets_cases [where data = data and offset = offset and frame_end = frame_end])
    case stop
    with "1.prems" show ?thesis by simp
  next
    case (raises e)
    with "1.prems" show ?thesis by simp
  next
    case (step pts imu offset')
    have adv: "offset + 43 \<le> offset'"
      using step(2) by (rule process_package_advance)
    from "1.prems" step(3) have "x = offset \<or> x \<in> set (frame_offsets data offset' frame_end)"
      by simp
    then show ?thesis
    proof
      assume "x = offset" then show ?thesis by simp
    next
      assume "x \<in> set (frame_offsets data offset' frame_end)"
      from "1.IH" [OF step(1) step(2) refl refl this] adv show ?thesis by simp
    qed
  qed
qed

lemma frame_offsets_increasing: "sorted_wrt (<) (frame_offsets data offset frame_end)"
proof (induction data offset frame_end rule: frame_offsets.induct)
  case (1 data offset frame_end)
  show ?case
  proof (cases rule: frame_offsets_cases [where data = data and offset = offset and frame_end = frame_end])
    case stop
    then show ?thesis by simp
  next
    case (raises e)
    then show ?thesis by simp
  next
    case (step pts imu offset')
    have adv: "offset + 43 \<le> offset'"
      using step(2) by (rule process_package_advance)
    have "\<forall>x\<in>set (frame_offsets data offset' frame_end). offset < x"
      using frame_offsets_lower [of _ data offset' frame_end] adv by fastforce
    with "1.IH" [OF step(1) step(2) refl refl] step(3) show ?thesis by simp
  qed
qed

lemma frame_offsets_length:
  "length (frame_offsets data offset frame_end) \<le> nat (frame_end - int offset) + 1"
proof (induction data offset frame_end rule: frame_offsets.induct)
  case (1 data offset frame_end)
  show ?case
  proof (cases rule: frame_offsets_cases [where data = data and offset = offset and frame_end = frame_end])
    case stop
    then show ?thesis by simp
  next
    case (raises e)
    then show ?thesis by simp
  next
    case (step pts imu offset')
    have adv: "offset + 43 \<le> offset'"
      using step(2) by (rule process_package_advance)
    from "1.IH" [OF step(1) step(2) refl refl] step(1,3) adv show ?thesis by simp
  qed
qed

lemma frame_offsets_hd: "hd (frame_offsets data offset frame_end) = offset"
  by (cases rule: frame_offsets_cases [where data = data and offset = offset and frame_end = frame_end]) simp_all

lemma process_frame_loop_last:
  "process_frame_loop data offset frame_end frame_points frame_imu = Inr (ps, is, offset')
     \<Longrightarrow> last (frame_offsets data offset frame_end) = offset'"
proof (induction data offset frame_end arbitrary: frame_points frame_imu rule: frame_offsets.induct)
  case (1 data offset frame_end)
  show ?case
  proof (cases rule: frame_offsets_cases [where data = data and offset = offset and frame_end = frame_end])
    case stop
    with "1.prems" show ?thesis by (simp add: process_frame_loop.simps)
  next
    case (raises e)
    with "1.prems" show ?thesis by (simp add: process_frame_loop.simps)
  next
    case (step pts imu off1)
    have ne: "frame_offsets data off1 frame_end \<noteq> []"
      by (cases rule: frame_offsets_cases [where data = data and offset = off1 and frame_end = frame_end]) simp_all
    have "process_frame_loop data off1 frame_end
            (if pts \<noteq> [] then frame_points @ pts else frame_points)
            (case imu of Some r \<Rightarrow> frame_imu @ [r] | None \<Rightarrow> frame_imu) = Inr (ps, is, offset')"
      using "1.prems" step(1,2) by (simp add: process_frame_loop.simps [of data offset])
    from "1.IH" [OF step(1) step(2) refl refl this] step(3) ne show ?thesis by simp
  qed
qed

lemma lvx_loop_offset: "st_offset s \<le> st_offset (snd (lvx_loop data n s))"
proof -
  obtain err s' where r: "lvx_loop data n s = (err, s')" by (cases "lvx_loop data n s") auto
  have "st_offset s \<le> st_offset s'"
    using r
  proof (rule lvx_loop_preserves [where I = "\<lambda>t :: lvx_state. st_offset s \<le> st_offset t"])
    show "st_offset s \<le> st_offset s" by simp
  next
    fix t :: lvx_state and nx fp fim off'
    assume "st_offset s \<le> st_offset t"
      and "process_frame data (st_offset t + 24) nx = Inr (fp, fim, off')"
    then show "st_offset s \<le> st_offset (add_frame data n t fp fim off')"
      by (auto dest: process_frame_offset)
  qed
  with r show ?thesis by simp
qed

lemma capture_file_frame_offsets: "frame_offsets (capture_file t) 53 1416 = [53, 1416]"
  by (simp add: frame_offsets.simps [of _ 53] frame_offsets.simps [of _ 1416] capture_file_package)

lemma capture_file_loop:
  "t < 24 \<Longrightarrow> lvx_loop (capture_file t) n (initial_state 29) =
     (None, add_frame (capture_file t) n (initial_state 29) [(1000, 2000, 3000, 50, 1)] [] 1416)"
  using capture_file_run [of t n] by (simp add: lvx_run_def capture_file_lvx_header)

lemma process_frame_loop_raises:
  "(\<exists>e. process_frame_loop data offset frame_end frame_points frame_imu = Inl e) \<longleftrightarrow>
     (\<exists>x\<in>set (frame_offsets data offset frame_end).
        int x < frame_end \<and> (\<exists>e. process_package data x = Inl e))"
proof (induction data offset frame_end arbitrary: frame_points frame_imu rule: frame_offsets.induct)
  case (1 data offset frame_end)
  show ?case
  proof (cases rule: frame_offsets_cases [where data = data and offset = offset and frame_end = frame_end])
    case stop
    then show ?thesis by (simp add: process_frame_loop.simps)
  next
    case (raises e)
    then show ?thesis by (simp add: process_frame_loop.simps)
  next
    case (step pts imu off1)
    have "process_frame_loop data offset frame_end frame_points frame_imu =
        process_frame_loop data off1 frame_end
            (if pts \<noteq> [] then frame_points @ pts else frame_points)
            (case imu of Some r \<Rightarrow> frame_imu @ [r] | None \<Rightarrow> frame_imu)"
      using step(1,2) by (simp add: process_frame_loop.simps [of data offset])
    with "1.IH" [OF step(1) step(2) refl refl] step show ?thesis by simp
  qed
qed

subsection \<open>Headers and file names of the examples\<close>

lemma lvx_header_eq:
  "lvx_header data =
     (if length data < 28 then Inl StructError
      else if length data < 29 then Inl IndexError
      else Inr (from_bytes_le (slice data 24 28), uint (data ! 28),
                24 + 4 + 1 + nat (uint (data ! 28)) * 59))"
  by (auto simp add: lvx_header_def unpack_uint_def get_byte_def length_slice)





subsection \<open>Chunks\<close>

text \<open>Two facts of integer division, for the frame counter of the loop.\<close>

lemma div_next_multiple:
  fixes t n :: int
  assumes "0 < n" and "0 \<le> t" and "(t + 1) mod n = 0"
  shows "(t + 1) div n = t div n + 1" and "(t + 1 + n - 1) div n = t div n + 1"
proof -
  obtain q where q: "t + 1 = n * q" using assms(3) by (auto simp add: mod_eq_0_iff_dvd)
  have t: "t = n * (q - 1) + (n - 1)" using q by (simp add: algebra_simps)
  have d: "t div n = q - 1"
    by (rule int_div_pos_eq [OF t]) (use assms in simp_all)
  show "(t + 1) div n = t div n + 1" using q d assms(1) by simp
  have "t + 1 + n - 1 = n * q + (n - 1)" using q by simp
  then have "(t + 1 + n - 1) div n = q"
    by (rule int_div_pos_eq) (use assms in simp_all)
  with d show "(t + 1 + n - 1) div n = t div n + 1" by simp
qed

lemma div_next_remainder:
  fixes t n :: int
  assumes "0 < n" and "0 \<le> t" and "(t + 1) mod n \<noteq> 0"
  shows "(t + 1) div n = t div n" and "(t + 1 + n - 1) div n = t div n + 1"
proof -
  let ?q = "(t + 1) div n" and ?r = "(t + 1) mod n"
  have e: "n * ?q + ?r = t + 1" by (rule mult_div_mod_eq)
  have "0 \<le> ?r" using assms(1) by (rule pos_mod_sign)
  with assms(3) have r0: "0 < ?r" by arith
  have r1: "?r < n" using assms(1) by (rule pos_mod_bound)
  note r = r0 r1
  have t: "t = n * ?q + (?r - 1)" using e by linarith
  have d: "t div n = ?q"
    by (rule int_div_pos_eq [OF t]) (use r in simp_all)
  then show "(t + 1) div n = t div n" by simp
  have "n * (?q + 1) = n * ?q + n" by (simp add: algebra_simps)
  with e have "t + 1 + n - 1 = n * (?q + 1) + (?r - 1)" by linarith
  then have "(t + 1 + n - 1) div n = ?q + 1"
    by (rule int_div_pos_eq) (use r in simp_all)
  with d show "(t + 1 + n - 1) div n = t div n + 1" by simp
qed


text \<open>The chunk indices of the calls made, in the order of the calls.\<close>

fun chunk_indices :: "emission list \<Rightarrow> int list" where
  "chunk_indices [] = []"
| "chunk_indices (ChunkFiles i points imu # es) = i # chunk_indices es"
| "chunk_indices (e # es) = chunk_indices es"

lemma chunk_indices_append [simp]:
  "chunk_indices (es @ fs) = chunk_indices es @ chunk_indices fs"
  by (induction es rule: chunk_indices.induct) simp_all

text \<open>
  The invariant of the loop for \<open>n > 0\<close> frames per chunk: the chunks written so far are
  numbered 0, 1, 2, ...; there are \<open>total_frames div n\<close> of them while input remains, and
  \<open>(total_frames + n - 1) div n\<close>, the ceiling of \<open>total_frames / n\<close>, once the offset has
  reached the end of the buffer, and then no frame is pending.
\<close>

definition count_inv :: "byte list \<Rightarrow> int \<Rightarrow> lvx_state \<Rightarrow> bool" where
  "count_inv data n s =
     (0 \<le> total_frames s \<and> 0 \<le> chunk_index s
      \<and> chunk_index s = (if length data \<le> st_offset s then (total_frames s + n - 1) div n
                          else total_frames s div n)
      \<and> chunk_indices (emitted s) = map int [0..<nat (chunk_index s)]
      \<and> (length data \<le> st_offset s \<longrightarrow> chunk_points s = [] \<and> chunk_imu s = []))"

lemma count_inv_initial: "0 < n \<Longrightarrow> count_inv data n (initial_state offset)"
  by (simp add: count_inv_def initial_state_def)

lemma upt_nat_Suc: "0 \<le> c \<Longrightarrow> map int [0..<nat (c + 1)] = map int [0..<nat c] @ [c]"
  by (simp add: nat_add_distrib)

lemma count_inv_add_frame:
  assumes n: "0 < n" and inv: "count_inv data n s" and more: "st_offset s + 24 \<le> length data"
  shows "count_inv data n (add_frame data n s frame_points frame_imu offset')"
proof -
  let ?t = "total_frames s"
  have t: "0 \<le> ?t" and c0: "0 \<le> chunk_index s" and c: "chunk_index s = ?t div n"
    and ix: "chunk_indices (emitted s) = map int [0..<nat (chunk_index s)]"
    using inv more by (simp_all add: count_inv_def)
  show ?thesis
  proof (cases "(?t + 1) mod n = 0")
    case True
    from div_next_multiple [OF n t True] show ?thesis
      using n t c c0 ix True
      by (simp add: count_inv_def add_frame_def Let_def upt_nat_Suc)
  next
    case False
    from div_next_remainder [OF n t False] show ?thesis
      using n t c c0 ix False
      by (simp add: count_inv_def add_frame_def Let_def upt_nat_Suc)
  qed
qed

lemma lvx_loop_count_inv:
  assumes "0 < n" and "lvx_loop data n s = (err, s')" and "count_inv data n s"
  shows "count_inv data n s'"
  using assms(2,3)
proof (rule lvx_loop_preserves)
  fix t :: lvx_state and nx fp fim off'
  assume "count_inv data n t" and "st_offset t + 24 \<le> length data"
  with assms(1) show "count_inv data n (add_frame data n t fp fim off')"
    by (rule count_inv_add_frame)
qed

lemma chunk_count:
  assumes "0 < n" and "lvx_run data n = (err, s)"
  shows "chunk_indices (emitted s) = map int [0..<nat (chunk_index s)]
    \<and> chunk_index s = (if length data \<le> st_offset s then (total_frames s + n - 1) div n
                        else total_frames s div n)"
proof -
  have "count_inv data n s"
  proof (cases "lvx_header data")
    case (Inl e)
    with assms show ?thesis by (auto simp add: lvx_run_def count_inv_initial)
  next
    case (Inr h)
    obtain fd dc off where "h = (fd, dc, off)" by (cases h) auto
    with Inr assms(2) have "lvx_loop data n (initial_state off) = (err, s)"
      by (simp add: lvx_run_def)
    with assms(1) show ?thesis
      by (rule lvx_loop_count_inv) (rule count_inv_initial [OF assms(1)])
  qed
  then show ?thesis by (simp add: count_inv_def)
qed


text \<open>
  The loop with \<open>n \<noteq> 0\<close> frames per chunk and the loop with \<open>frames_per_output = 0\<close>
  walk the same frames: started at the same offset they end at the same offset with the
  same outcome, and the points written to chunks followed by the points still pending
  are the points that the other loop has gathered in \<open>all_points\<close>.
\<close>

lemma add_frame_points:
  assumes "n \<noteq> 0"
    and "concat (map emission_points (emitted s)) @ chunk_points s = all_points s0"
  shows "concat (map emission_points (emitted (add_frame data n s fp fim off')))
           @ chunk_points (add_frame data n s fp fim off')
         = all_points (add_frame data 0 s0 fp fim off')"
  using assms by (simp add: add_frame_def Let_def emission_points_def)

lemma lvx_loop_simulation:
  assumes "lvx_loop data n s = (err, s')" and "lvx_loop data 0 s0 = (err0, s0')"
    and "n \<noteq> 0" and "st_offset s = st_offset s0"
    and "concat (map emission_points (emitted s)) @ chunk_points s = all_points s0"
  shows "err = err0 \<and> st_offset s' = st_offset s0'
    \<and> concat (map emission_points (emitted s')) @ chunk_points s' = all_points s0'"
  using assms
proof (induction data n s arbitrary: s0 rule: lvx_loop.induct)
  case (1 data n s)
  note off = \<open>st_offset s = st_offset s0\<close>
  show ?case
  proof (cases "st_offset s < length data \<and> \<not> st_offset s + 24 > length data")
    case False
    with "1.prems" show ?thesis
      by (auto simp add: lvx_loop.simps [of data n s] lvx_loop.simps [of data 0 s0]
          split: if_splits)
  next
    case True
    show ?thesis
    proof (cases "frame_header data (st_offset s)")
      case (Inl e)
      with True "1.prems" show ?thesis
        by (auto simp add: lvx_loop.simps [of data n s] lvx_loop.simps [of data 0 s0])
    next
      case (Inr h)
      obtain c nx fi off1 where h: "h = (c, nx, fi, off1)" by (cases h) auto
      show ?thesis
      proof (cases "process_frame data off1 nx")
        case (Inl e)
        with True Inr h "1.prems" show ?thesis
          by (auto simp add: lvx_loop.simps [of data n s] lvx_loop.simps [of data 0 s0])
      next
        case r: (Inr r)
        obtain fp fim off' where r': "r = (fp, fim, off')" by (cases r) auto
        have run: "lvx_loop data n (add_frame data n s fp fim off') = (err, s')"
          using True Inr h r r' "1.prems"(1) by (simp add: lvx_loop.simps [of data n s])
        have run0: "lvx_loop data 0 (add_frame data 0 s0 fp fim off') = (err0, s0')"
          using True Inr h r r' "1.prems"(2) off by (simp add: lvx_loop.simps [of data 0 s0])
        have pts: "concat (map emission_points (emitted (add_frame data n s fp fim off')))
              @ chunk_points (add_frame data n s fp fim off')
            = all_points (add_frame data 0 s0 fp fim off')"
          using "1.prems"(3,5) by (rule add_frame_points)
        have o: "st_offset (add_frame data n s fp fim off')
            = st_offset (add_frame data 0 s0 fp fim off')" by simp
        have a: "st_offset s < length data" and b: "\<not> length data < st_offset s + 24"
          using True by simp_all
        from "1.IH" [OF a b Inr h [symmetric] refl refl r r' [symmetric] refl run run0
            "1.prems"(3) o pts]
        show ?thesis .
      qed
    qed
  qed
qed

lemma chunked_points:
  assumes "n \<noteq> 0" and "lvx_run data n = (err, s)" and "lvx_run data 0 = (err0, s0)"
  shows "err = err0 \<and> st_offset s = st_offset s0
    \<and> concat (map emission_points (emitted s)) @ chunk_points s = all_points s0"
proof (cases "lvx_header data")
  case (Inl e)
  with assms show ?thesis by (auto simp add: lvx_run_def initial_state_def)
next
  case (Inr h)
  obtain fd dc off where "h = (fd, dc, off)" by (cases h) auto
  with Inr assms have "lvx_loop data n (initial_state off) = (err, s)"
    and "lvx_loop data 0 (initial_state off) = (err0, s0)"
    by (simp_all add: lvx_run_def)
  then show ?thesis
    using assms(1) by (rule lvx_loop_simulation) (simp_all add: initial_state_def)
qed

text \<open>
  So for \<open>n > 0\<close>, whenever \<open>process_lvx\<close> ends with its offset at or past the end of
  the buffer, it has written the ceiling of \<open>total_frames / n\<close> chunks, and their points
  together are the points of the single chunk written with \<open>frames_per_output = 0\<close>.
\<close>

lemma chunks_when_input_consumed:
  assumes "0 < n" and "lvx_run data n = (err, s)" and "lvx_run data 0 = (err0, s0)"
    and "length data \<le> st_offset s"
  shows "chunk_indices (emitted s) = map int [0..<nat ((total_frames s + n - 1) div n)]
    \<and> concat (map emission_points (emitted s)) = all_points s0"
proof -
  have "count_inv data n s"
  proof (cases "lvx_header data")
    case (Inl e)
    with assms show ?thesis by (auto simp add: lvx_run_def count_inv_initial)
  next
    case (Inr h)
    obtain fd dc off where "h = (fd, dc, off)" by (cases h) auto
    with Inr assms(2) have "lvx_loop data n (initial_state off) = (err, s)"
      by (simp add: lvx_run_def)
    with assms(1) show ?thesis
      by (rule lvx_loop_count_inv) (rule count_inv_initial [OF assms(1)])
  qed
  with assms(4) have "chunk_points s = []"
    and "chunk_indices (emitted s) = map int [0..<nat ((total_frames s + n - 1) div n)]"
    by (simp_all add: count_inv_def)
  moreover have "concat (map emission_points (emitted s)) @ chunk_points s = all_points s0"
    using chunked_points [OF _ assms(2,3)] assms(1) by simp
  ultimately show ?thesis by simp
qed

subsection \<open>Where the loop of \<open>process_lvx\<close> stops on an exception\<close>











text \<open>
  The capture file followed by the header of a second frame (\<open>next_offset = 65535\<close>) and
  one single byte of its first package: the read of the second byte of that package
  raises \<open>IndexError\<close>.
\<close>

definition truncated_file :: "byte list" where
  "truncated_file =
     replicate 28 0 @ [0]
       @ [0, 0, 0, 0, 0, 0, 0, 0,  0x88, 5, 0, 0, 0, 0, 0, 0,  0, 0, 0, 0, 0, 0, 0, 0]
       @ replicate 10 0 @ [2] @ replicate 8 0
       @ [0xE8, 3, 0, 0,  0xD0, 7, 0, 0,  0xB8, 0x0B, 0, 0,  50, 0]
       @ replicate 1330 0
       @ [0, 0, 0, 0, 0, 0, 0, 0,  0xFF, 0xFF, 0, 0, 0, 0, 0, 0,  1, 0, 0, 0, 0, 0, 0, 0]
       @ [0]"

lemma length_truncated_file [simp]: "length truncated_file = 1441"
  by (simp add: truncated_file_def)










section \<open>The claims\<close>

subsection \<open>C1: sentinels are excluded\<close>

text \<open>
  C1: no point that \<open>process_package\<close> returns has \<open>x = 0\<close>, \<open>y = 0\<close>, \<open>z = 0\<close> and
  intensity 0, whatever its return number and whatever the data type; hence none that
  \<open>process_frame\<close> returns, and none in any list of points that \<open>process_lvx\<close> hands
  to an output function.
\<close>

theorem sentinel_excluded:
  "(process_package data offset = Inr (points, imu, offset') \<longrightarrow> (0, 0, 0, 0, rn) \<notin> set points)
   \<and> (process_frame data offset frame_end = Inr (frame_points, frame_imu, offset'')
        \<longrightarrow> (0, 0, 0, 0, rn) \<notin> set frame_points)
   \<and> (\<forall>e\<in>set (snd (process_lvx data n)). (0, 0, 0, 0, rn) \<notin> set (emission_points e))"
proof -
  have s: "is_sentinel (0, 0, 0, 0, rn)" by (simp add: is_sentinel_def)
  show ?thesis
    using s process_package_not_sentinel process_frame_not_sentinel process_lvx_clean
    by blast
qed

text \<open>
  The capture file with one valid entry and 95 sentinel entries: one point comes out of
  the package, of the frame and of the chunk.
\<close>

theorem sentinel_excluded_witness:
  "process_package (capture_file 0) 53 = Inr ([(1000, 2000, 3000, 50, 1)], None, 1416)
   \<and> (0, 0, 0, 0, 1) \<notin> set [(1000, 2000, 3000, 50, 1) :: point]
   \<and> process_frame (capture_file 0) 53 1416 = Inr ([(1000, 2000, 3000, 50, 1)], [], 1416)
   \<and> snd (process_lvx (capture_file 0) 2) = [ChunkFiles 0 [(1000, 2000, 3000, 50, 1)] [], OverallCsv []]
   \<and> (0, 0, 0, 0, 1) \<notin> set (emission_points (ChunkFiles 0 [(1000, 2000, 3000, 50, 1)] []))"
  using sentinel_excluded [of "capture_file 0" 53 "[(1000, 2000, 3000, 50, 1)]" None 1416 1
      1416 "[(1000, 2000, 3000, 50, 1)]" "[]" 1416 2]
  by (simp add: capture_file_package capture_file_frame process_lvx_def capture_file_run
      add_frame_def initial_state_def emission_points_def)

subsection \<open>C2: a failure in one file\<close>




subsection \<open>C3: when decoding raises\<close>

text \<open>
  C3 as stated fails. Nothing in \<open>process_package\<close> or \<open>process_frame\<close> compares a
  read with the end of the frame: with the frame end at 100, the package at 53 of the
  capture file is decoded up to 1416 and nothing is raised. And the branch for an
  unrecognised data type adds 24 to the offset without reading: on a buffer of 19 zero
  bytes the decode returns offset 43, past the end of the buffer, and nothing is raised.
\<close>

theorem frame_end_unchecked_counterexample:
  "process_frame (capture_file 0) 53 100 = Inr ([(1000, 2000, 3000, 50, 1)], [], 1416)
   \<and> (100 :: int) < 1416
   \<and> process_package (replicate 19 0) 0 = Inr ([], None, 43)
   \<and> length (replicate 19 (0 :: byte)) < 43"
proof -
  have "process_frame (capture_file 0) 53 100 = Inr ([(1000, 2000, 3000, 50, 1)], [], 1416)"
    by (simp add: process_frame_def process_frame_loop.simps [of _ 53]
        process_frame_loop.simps [of _ 1416] capture_file_package)
  moreover have "process_package (replicate 19 0) 0 = Inr ([], None, 43)"
    by (simp add: process_package_eq data_type_at_def)
  ultimately show ?thesis by simp
qed

text \<open>
  C3, amended: \<open>process_package\<close> raises (\<open>IndexError\<close> or \<open>struct.error\<close>) exactly when
  the 19-byte header, or the payload of a package of data type 2, 4, 6 or 7, would extend
  past the end of the buffer; and \<open>process_frame\<close> raises exactly when one of the
  decodes it starts before the frame end raises.
\<close>

theorem decode_raises_iff:
  "((\<exists>e. process_package data offset = Inl e) \<longleftrightarrow>
      (length data < offset + 19
       \<or> (data_type_at data offset \<in> {2, 4, 6, 7}
          \<and> length data < offset + 19 + payload_size (data_type_at data offset))))
   \<and> ((\<exists>e. process_frame data offset frame_end = Inl e) \<longleftrightarrow>
      (\<exists>x\<in>set (frame_offsets data offset frame_end).
         int x < frame_end \<and> (\<exists>e. process_package data x = Inl e)))"
proof
  show "(\<exists>e. process_package data offset = Inl e) \<longleftrightarrow>
      (length data < offset + 19
       \<or> (data_type_at data offset \<in> {2, 4, 6, 7}
          \<and> length data < offset + 19 + payload_size (data_type_at data offset)))"
  proof (cases "length data < offset + 19")
    case True
    then show ?thesis by (simp add: process_package_short)
  next
    case False
    then have "offset + 19 \<le> length data" by simp
    from process_package_long [OF this] False show ?thesis
      by (simp add: payload_size_def)
  qed
  show "(\<exists>e. process_frame data offset frame_end = Inl e) \<longleftrightarrow>
      (\<exists>x\<in>set (frame_offsets data offset frame_end).
         int x < frame_end \<and> (\<exists>e. process_package data x = Inl e))"
    unfolding process_frame_def by (rule process_frame_loop_raises)
qed

text \<open>A package of data type 2 at offset 20 of a buffer of 1031 bytes: 1383 are needed.\<close>

theorem decode_raises_iff_witness:
  "process_package (replicate 30 0 @ [2] @ replicate 1000 0) 20 = Inl IndexError
   \<and> data_type_at (replicate 30 0 @ [2] @ replicate 1000 0) 20 = 2
   \<and> length (replicate 30 0 @ [2 :: byte] @ replicate 1000 0) < 20 + 19 + payload_size 2
   \<and> process_frame (replicate 30 0 @ [2] @ replicate 1000 0) 20 21 = Inl IndexError
   \<and> frame_offsets (replicate 30 0 @ [2] @ replicate 1000 0) 20 21 = [20]"
  using decode_raises_iff [of "replicate 30 0 @ [2] @ replicate 1000 0" 20 21]
  by (simp add: process_package_eq data_type_at_def nth_append payload_size_def
      process_frame_def process_frame_loop.simps [of _ 20] frame_offsets.simps [of _ 20])

subsection \<open>C4: the file header\<close>

text \<open>
  C4 as stated fails: lines 160 to 165 read bytes 24 to 28 and compute the offset of the
  first frame; the device table is not read and its length is compared with nothing. A
  buffer of 29 bytes that declares one device gets the offset 88, with no error.
\<close>

theorem header_short_table_counterexample:
  "lvx_header (replicate 28 0 @ [1]) = Inr (0, 1, 88)
   \<and> length (replicate 28 0 @ [1 :: byte]) < 24 + 4 + 1 + 1 * 59"
  by (simp add: lvx_header_eq slice_def nth_append)

text \<open>
  C4, amended: reading the header fails exactly when the buffer is shorter than the
  fixed 24 + 4 + 1 bytes; otherwise it gives the frame duration, the device count and
  the offset \<open>24 + 4 + 1 + device_count * 59\<close>, whether or not that offset lies in the
  buffer.
\<close>

theorem header_raises_iff:
  "((\<exists>e. lvx_header data = Inl e) \<longleftrightarrow> length data < 24 + 4 + 1)
   \<and> (24 + 4 + 1 \<le> length data \<longrightarrow>
        lvx_header data =
          Inr (from_bytes_le (slice data 24 28), uint (data ! 28),
               24 + 4 + 1 + nat (uint (data ! 28)) * 59))"
  by (simp add: lvx_header_eq)

theorem header_raises_iff_witness:
  "lvx_header (replicate 28 0) = Inl IndexError
   \<and> length (replicate 28 (0 :: byte)) < 24 + 4 + 1
   \<and> 24 + 4 + 1 \<le> length (replicate 28 0 @ [1 :: byte])
   \<and> lvx_header (replicate 28 0 @ [1]) = Inr (0, 1, 24 + 4 + 1 + 1 * 59)"
  using header_raises_iff [of "replicate 28 0"] header_raises_iff [of "replicate 28 0 @ [1]"]
  by (simp add: lvx_header_eq slice_def nth_append)

subsection \<open>C5: the number of chunks\<close>

text \<open>
  C5 holds whenever the loop ends with its offset at or past the end of the buffer
  (\<open>chunks_when_input_consumed\<close>), and the chunks are always numbered 0, 1, 2, ...
  (\<open>chunk_count\<close>). It fails when 1 to 23 bytes follow the last frame. C5 on the
  capture file followed by one more byte, with two frames per chunk: the file holds one
  frame, so one chunk is due. After the frame the offset is 1416 and the buffer has 1417
  bytes: \<open>offset >= len(data)\<close> is false and so is \<open>total_frames % 2 == 0\<close>, so the
  frame is not flushed; the next iteration leaves by \<open>break\<close>, and nothing after the
  loop flushes the chunk. No chunk is written.
\<close>

theorem trailing_bytes_chunk_count:
  "fst (lvx_run (capture_file 1) 2) = None
   \<and> total_frames (snd (lvx_run (capture_file 1) 2)) = 1
   \<and> chunk_index (snd (lvx_run (capture_file 1) 2)) = 0
   \<and> emitted (snd (lvx_run (capture_file 1) 2)) = []
   \<and> process_lvx (capture_file 1) 2 = (None, [OverallCsv []])"
  by (simp add: process_lvx_def capture_file_run add_frame_def initial_state_def)

subsection \<open>C6: the points of all chunks\<close>

text \<open>
  C6 holds whenever the loop ends with its offset at or past the end of the buffer
  (\<open>chunks_when_input_consumed\<close>); in general the points of the chunks written are
  the points gathered with \<open>frames_per_output = 0\<close> less those still pending
  (\<open>chunked_points\<close>). C6 on the capture file followed by one more byte: with two
  frames per chunk no list of points reaches an output function, with
  \<open>frames_per_output = 0\<close> the one point of the file does.
\<close>

theorem trailing_bytes_points_lost:
  "process_lvx (capture_file 1) 2 = (None, [OverallCsv []])
   \<and> process_lvx (capture_file 1) 0
        = (None, [AllFiles [(1000, 2000, 3000, 50, 1)] [], OverallCsv []])"
  by (simp add: process_lvx_def capture_file_run add_frame_def initial_state_def)

subsection \<open>C7: return numbers\<close>

text \<open>
  C7: the points that \<open>process_package\<close> returns are the returns of the payload, each
  numbered by its position in its entry, with the sentinels filtered out afterwards; so
  every return number is 1, 2 or 3, only 1 for data type 2, only 1 or 2 for data type 4,
  and the number of a point does not depend on which other returns were discarded.
\<close>

theorem return_number_positional:
  assumes "process_package data offset = Inr (points, imu, offset')"
  shows "points = filter (\<lambda>p. \<not> is_sentinel p)
            (positional_points data (offset + 19) (returns_per_entry (data_type_at data offset))
               (entry_count (data_type_at data offset)))
    \<and> (\<forall>p\<in>set points. return_number p \<in> {1, 2, 3})
    \<and> (data_type_at data offset = 2 \<longrightarrow> (\<forall>p\<in>set points. return_number p = 1))
    \<and> (data_type_at data offset = 4 \<longrightarrow> (\<forall>p\<in>set points. return_number p \<in> {1, 2}))
    \<and> (data_type_at data offset = 7 \<longrightarrow> (\<forall>p\<in>set points. return_number p \<in> {1, 2, 3}))"
proof -
  let ?m = "returns_per_entry (data_type_at data offset)"
  let ?n = "entry_count (data_type_at data offset)"
  have eq: "points = filter (\<lambda>p. \<not> is_sentinel p) (positional_points data (offset + 19) ?m ?n)"
    using process_package_points [OF assms] by (simp add: kept_points_def)
  have rn: "1 \<le> return_number p \<and> return_number p \<le> int ?m" if "p \<in> set points" for p
    using that eq positional_points_return_number [of p data "offset + 19" ?m ?n] by simp
  have m3: "?m \<le> 3" by (simp add: returns_per_entry_def)
  have a: "\<forall>p\<in>set points. return_number p \<in> {1, 2, 3}"
  proof
    fix p assume "p \<in> set points"
    from rn [OF this] m3 have "1 \<le> return_number p \<and> return_number p \<le> 3" by simp
    then show "return_number p \<in> {1, 2, 3}" by auto
  qed
  have b: "\<forall>p\<in>set points. return_number p = 1" if "data_type_at data offset = 2"
  proof
    fix p assume "p \<in> set points"
    from rn [OF this] that show "return_number p = 1" by (simp add: returns_per_entry_def)
  qed
  have c: "\<forall>p\<in>set points. return_number p \<in> {1, 2}" if "data_type_at data offset = 4"
  proof
    fix p assume "p \<in> set points"
    from rn [OF this] that have "1 \<le> return_number p \<and> return_number p \<le> 2"
      by (simp add: returns_per_entry_def)
    then show "return_number p \<in> {1, 2}" by auto
  qed
  from eq a b c show ?thesis by blast
qed

text \<open>
  The package of data type 7 whose first return is a sentinel: the second and third
  returns keep the numbers 2 and 3.
\<close>

theorem return_number_positional_witness:
  "process_package triple_return_package 0 = Inr ([(0, 0, 0, 7, 2), (- 1, 0, 0, 0, 3)], None, 1279)
   \<and> data_type_at triple_return_package 0 = 7
   \<and> map (sub_point triple_return_package 19) [0..<3] =
        [(0, 0, 0, 0, 1), (0, 0, 0, 7, 2), (- 1, 0, 0, 0, 3)]
   \<and> [(0, 0, 0, 7, 2), (- 1, 0, 0, 0, 3)] = filter (\<lambda>p. \<not> is_sentinel p)
        (positional_points triple_return_package (0 + 19) (returns_per_entry 7) (entry_count 7))
   \<and> return_number (0, 0, 0, 7, 2) \<in> {1, 2, 3} \<and> return_number (- 1, 0, 0, 0, 3) \<in> {1, 2, 3}"
  using return_number_positional [OF triple_return_package_decodes]
  by (simp add: triple_return_package_decodes triple_return_package_type
      triple_return_package_positional)

subsection \<open>C8: the offset a package decode returns\<close>

text \<open>
  C8 as stated fails: the header that \<open>process_package\<close> reads is 19 bytes long
  (5 + 4 + 1 + 1 + 8), not 16. The package of data type 2 at offset 53 of the capture
  file ends at 1416 = 53 + 19 + 1344, not at 53 + 16 + 1344; a buffer of 19 zero bytes is
  a header with data type 0, and the decode returns offset 43, not 0 + 16 + 24.
\<close>

theorem new_offset_16_counterexample:
  "process_package (capture_file 0) 53 = Inr ([(1000, 2000, 3000, 50, 1)], None, 1416)
   \<and> data_type_at (capture_file 0) 53 = 2
   \<and> (1416 :: nat) \<noteq> 53 + 16 + payload_size 2
   \<and> process_package (replicate 19 0) 0 = Inr ([], None, 43)
   \<and> data_type_at (replicate 19 0) 0 = 0
   \<and> (43 :: nat) \<noteq> 0 + 16 + payload_size 0"
proof -
  have "process_package (replicate 19 0) 0 = Inr ([], None, 43)"
    by (simp add: process_package_eq data_type_at_def)
  moreover have "data_type_at (replicate 19 0) 0 = 0"
    by (simp add: data_type_at_def)
  ultimately show ?thesis
    by (simp add: capture_file_package capture_file_type payload_size_def)
qed

text \<open>
  C8, amended: whenever \<open>process_package\<close> returns, the new offset is the old one plus
  the 19 bytes of the header plus the payload size fixed by the data type, whatever the
  payload holds and however many points pass the sentinel filter.
\<close>

theorem new_offset_fixed:
  "process_package data offset = Inr (points, imu, offset')
     \<Longrightarrow> offset' = offset + 19 + payload_size (data_type_at data offset)"
  by (simp add: process_package_eq payload_size_def split: if_splits)

theorem new_offset_fixed_witness:
  "process_package (capture_file 0) 53 = Inr ([(1000, 2000, 3000, 50, 1)], None, 1416)
   \<and> (1416 :: nat) = 53 + 19 + payload_size (data_type_at (capture_file 0) 53)"
  using new_offset_fixed [OF capture_file_package [of 0]]
  by (simp add: capture_file_package)

subsection \<open>C9: offsets only grow\<close>

text \<open>
  C9: a call to \<open>process_package\<close> that returns has moved the offset forward, by at
  least 40 bytes; a call to \<open>process_frame\<close> that returns gives an offset no smaller
  than the one it was given, and that offset is the last one its loop visited. The
  offsets the loop of a frame visits are strictly increasing, so non-decreasing, and
  there are at most \<open>frame_end - offset + 1\<close> of them: the loop ends, for every buffer
  and every frame end (\<open>process_frame\<close> and \<open>frame_offsets\<close> are total functions, by
  the same measure). The offset of \<open>process_lvx\<close> never goes back either.
\<close>

theorem offsets_advance:
  "(process_package data offset = Inr (points, imu, offset')
      \<longrightarrow> offset < offset' \<and> offset + 40 \<le> offset')
   \<and> (process_frame data offset frame_end = Inr (frame_points, frame_imu, offset'')
      \<longrightarrow> offset \<le> offset'' \<and> last (frame_offsets data offset frame_end) = offset'')
   \<and> hd (frame_offsets data offset frame_end) = offset
   \<and> sorted_wrt (<) (frame_offsets data offset frame_end)
   \<and> sorted (frame_offsets data offset frame_end)
   \<and> length (frame_offsets data offset frame_end) \<le> nat (frame_end - int offset) + 1
   \<and> st_offset s \<le> st_offset (snd (lvx_loop data n s))"
proof -
  have a: "offset < offset' \<and> offset + 40 \<le> offset'"
    if "process_package data offset = Inr (points, imu, offset')"
    using process_package_advance [OF that] by simp
  have b: "offset \<le> offset'' \<and> last (frame_offsets data offset frame_end) = offset''"
    if "process_frame data offset frame_end = Inr (frame_points, frame_imu, offset'')"
    using that process_frame_offset [OF that] process_frame_loop_last [of data offset frame_end "[]" "[]"]
    by (simp add: process_frame_def)
  have c: "sorted (frame_offsets data offset frame_end)"
    using frame_offsets_increasing [of data offset frame_end]
    by (simp add: sorted_wrt_mono_rel [of _ "(<)" "(\<le>)"])
  from a b c show ?thesis
    using frame_offsets_hd frame_offsets_increasing frame_offsets_length lvx_loop_offset
    by blast
qed

text \<open>The frame of the capture file: the loop visits 53 and 1416.\<close>

theorem offsets_advance_witness:
  "process_package (capture_file 0) 53 = Inr ([(1000, 2000, 3000, 50, 1)], None, 1416)
   \<and> (53 :: nat) < 1416 \<and> (53 :: nat) + 40 \<le> 1416
   \<and> process_frame (capture_file 0) 53 1416 = Inr ([(1000, 2000, 3000, 50, 1)], [], 1416)
   \<and> frame_offsets (capture_file 0) 53 1416 = [53, 1416]
   \<and> sorted_wrt (<) [53, 1416 :: nat]
   \<and> length [53, 1416 :: nat] \<le> nat (1416 - int 53) + 1
   \<and> st_offset (initial_state 29) = 29
   \<and> st_offset (snd (lvx_loop (capture_file 0) 2 (initial_state 29))) = 1416"
proof -
  have l: "st_offset (snd (lvx_loop (capture_file 0) 2 (initial_state 29))) = 1416"
    by (simp add: capture_file_loop)
  have i: "st_offset (initial_state 29) = 29"
    by (simp add: initial_state_def)
  show ?thesis
    using offsets_advance [of "capture_file 0" 53 "[(1000, 2000, 3000, 50, 1)]" None 1416
        1416 "[(1000, 2000, 3000, 50, 1)]" "[]" 1416 "initial_state 29" 2] l i
    by (simp add: capture_file_package capture_file_frame capture_file_frame_offsets)
qed

subsection \<open>C10: zero coordinates with a reflectivity\<close>

text \<open>
  C10: a return with \<open>x = 0\<close>, \<open>y = 0\<close>, \<open>z = 0\<close> and a reflectivity other than 0 is
  not a sentinel. Whenever \<open>process_package\<close> returns, the \<open>k\<close>-th return of entry
  \<open>i\<close> of the payload, if it reads so, is among the points, with return number
  \<open>k + 1\<close>.
\<close>

theorem zero_coordinates_kept:
  assumes "process_package data offset = Inr (points, imu, offset')"
    and "i < entry_count (data_type_at data offset)"
    and "k < returns_per_entry (data_type_at data offset)"
    and "return_at data (offset + 19 + 14 * (returns_per_entry (data_type_at data offset) * i + k))
           = (0, 0, 0, reflectivity, tag)"
    and "reflectivity \<noteq> 0"
  shows "(0, 0, 0, reflectivity, int k + 1) \<in> set points"
proof -
  let ?m = "returns_per_entry (data_type_at data offset)"
  let ?n = "entry_count (data_type_at data offset)"
  have sp: "sub_point data (offset + 19 + 14 * ?m * i) k = (0, 0, 0, reflectivity, int k + 1)"
    using assms(4) by (simp add: sub_point_def algebra_simps)
  have "sub_point data (offset + 19 + 14 * ?m * i) k
          \<in> set (positional_points data (offset + 19) ?m ?n)"
    using assms(2,3) by (rule sub_point_in_positional)
  moreover have "\<not> is_sentinel (0, 0, 0, reflectivity, int k + 1)"
    using assms(5) by (simp add: is_sentinel_def)
  ultimately show ?thesis
    using process_package_points [OF assms(1)] sp by (simp add: kept_points_def)
qed

theorem zero_coordinates_kept_witness:
  "process_package triple_return_package 0 = Inr ([(0, 0, 0, 7, 2), (- 1, 0, 0, 0, 3)], None, 1279)
   \<and> (0 :: nat) < entry_count (data_type_at triple_return_package 0)
   \<and> (1 :: nat) < returns_per_entry (data_type_at triple_return_package 0)
   \<and> return_at triple_return_package
        (0 + 19 + 14 * (returns_per_entry (data_type_at triple_return_package 0) * 0 + 1))
        = (0, 0, 0, 7, 0)
   \<and> (7 :: int) \<noteq> 0
   \<and> (0, 0, 0, 7, int 1 + 1) \<in> set [(0, 0, 0, 7, 2), (- 1, 0, 0, 0, 3) :: point]"
  using zero_coordinates_kept [OF triple_return_package_decodes, of 0 1 7 0]
  by (simp add: triple_return_package_decodes triple_return_package_type
      triple_return_package_returns returns_per_entry_def entry_count_def)

end
